theory Spec2Isabelle
  imports Main "HOL-Library.Word"
begin

unbundle bit_operations_syntax

section \<open>The hash table of map.c\<close>

text \<open>
  A slot of the key array holds a \<open>char *\<close>: the null pointer (never used), the marker
  \<open>TOMBSTONE\<close> (\<open>(void *)-1\<close>, a removed entry) or a pointer to a C string, which
  \<open>strcmp\<close> compares by content. A C string is a \<open>string\<close> here (no NUL inside).
\<close>

datatype keyptr = NULL | TOMBSTONE | Str string

definition INIT_SIZE :: nat where
  "INIT_SIZE = 16"

text \<open>
  \<open>hash\<close> is FNV-1a on \<open>uint32_t\<close>. \<open>r ^= *p\<close> promotes a \<open>char\<close> to \<open>int\<close>
  first; on x86-64, the target of this compiler, \<open>char\<close> is signed, so a byte from 128
  on is sign-extended.
\<close>

definition char_val :: "char \<Rightarrow> 32 word" where
  "char_val c = (let n = (of_char c :: nat) in
     if n < 128 then word_of_nat n else word_of_nat n + 0xFFFFFF00)"

fun hash_loop :: "32 word \<Rightarrow> string \<Rightarrow> 32 word" where
  "hash_loop r [] = r"
| "hash_loop r (c # p) = hash_loop ((r XOR char_val c) * 16777619) p"

definition hash :: "string \<Rightarrow> 32 word" where
  "hash p = hash_loop 2166136261 p"

text \<open>
  \<open>struct Map\<close>. \<open>parent\<close> is a pointer to another table (an address of the store of
  tables below), \<open>key\<close> is the key array or the null pointer (no storage yet), and
  \<open>val\<close> the array of values, a \<open>void *\<close> each: \<open>None\<close> is the null pointer. The two
  arrays are allocated together; \<open>val\<close> is \<open>[]\<close> as long as \<open>key\<close> is null. The
  \<open>int\<close> fields are natural numbers: they count slots of arrays that exist in memory.
\<close>

record 'v Map =
  parent :: "nat option"
  key :: "keyptr list option"
  val :: "'v option list"
  size_m :: nat
  nelem :: nat
  nused :: nat

definition do_make_map :: "nat option \<Rightarrow> nat \<Rightarrow> 'v Map" where
  "do_make_map p n =
     \<lparr>parent = p, key = Some (replicate n NULL), val = replicate n None,
      size_m = n, nelem = 0, nused = 0\<rparr>"

definition make_map :: "'v Map" where
  "make_map = do_make_map None INIT_SIZE"

definition make_map_parent :: "nat \<Rightarrow> 'v Map" where
  "make_map_parent p = do_make_map (Some p) INIT_SIZE"

text \<open>
  Modelled from the spec: \<open>EMPTY_MAP\<close>, the initialiser of a table "created empty"
  that "lazily allocates backing storage on first insert" (its macro is in map.h, which
  is not among the sources): every field zero.
\<close>

definition EMPTY_MAP :: "'v Map" where
  "EMPTY_MAP = \<lparr>parent = None, key = None, val = [], size_m = 0, nelem = 0, nused = 0\<rparr>"

subsection \<open>maybe_rehash\<close>

text \<open>
  A loop of the source that may run forever is a \<open>partial_function\<close> into \<open>option\<close>:
  \<open>None\<close> says that the call does not return.

  The inner loop of \<open>maybe_rehash\<close> looks for a null slot of the new key array \<open>k\<close>,
  from \<open>j\<close> on; \<open>continue\<close> runs the step \<open>j = (j + 1) & mask\<close>.
\<close>

partial_function (option) rehash_probe :: "keyptr list \<Rightarrow> nat \<Rightarrow> nat \<Rightarrow> nat option" where
  "rehash_probe k msk j =
     (if k ! j \<noteq> NULL then rehash_probe k msk ((j + 1) AND msk) else Some j)"

text \<open>The outer loop, over the slots \<open>i < size\<close> of the old arrays \<open>ks\<close> and \<open>vs\<close>.\<close>

function rehash_loop ::
  "keyptr list \<Rightarrow> 'v option list \<Rightarrow> nat \<Rightarrow> nat \<Rightarrow> nat \<Rightarrow>
     keyptr list \<times> 'v option list \<Rightarrow> (keyptr list \<times> 'v option list) option" where
  "rehash_loop ks vs n msk i (k, v) =
     (if i < n then
        (case ks ! i of
           Str s \<Rightarrow>
             (case rehash_probe k msk (unat (hash s) AND msk) of
                None \<Rightarrow> None
              | Some j \<Rightarrow> rehash_loop ks vs n msk (i + 1) (k[j := ks ! i], v[j := vs ! i]))
         | _ \<Rightarrow> rehash_loop ks vs n msk (i + 1) (k, v))
      else Some (k, v))"
  by pat_completeness auto
termination
  by (relation "measure (\<lambda>(ks, vs, n, msk, i, kv). n - i)") auto

declare rehash_loop.simps [simp del]

text \<open>
  The two thresholds are compared in \<open>double\<close>: \<open>nused < size * 0.7\<close> and
  \<open>nelem < size * 0.35\<close>. The size is a power of two (16, doubled), so \<open>size * 0.7\<close> is
  the double nearest to 0.7 scaled exactly, which lies less than \<open>size * 5e-17\<close> below
  \<open>7 * size / 10\<close>, and no integer lies between the two (\<open>7 * size / 10\<close> is at least 1/5
  away from every integer). The comparisons are therefore those of the exact fractions.
\<close>

definition maybe_rehash :: "'v Map \<Rightarrow> 'v Map option" where
  "maybe_rehash m =
     (case key m of
        None \<Rightarrow>
          Some (m\<lparr>key := Some (replicate INIT_SIZE NULL), val := replicate INIT_SIZE None,
                  size_m := INIT_SIZE\<rparr>)
      | Some ks \<Rightarrow>
          if 10 * nused m < 7 * size_m m then Some m
          else
            (let newsize = (if 20 * nelem m < 7 * size_m m then size_m m else size_m m * 2);
                 msk = newsize - 1
             in case rehash_loop ks (val m) (size_m m) msk 0
                       (replicate newsize NULL, replicate newsize None) of
                  None \<Rightarrow> None
                | Some (k, v) \<Rightarrow>
                    Some (m\<lparr>key := Some k, val := v, size_m := newsize, nused := nelem m\<rparr>)))"

subsection \<open>Lookup in one table and along the parents\<close>

partial_function (option) get_loop ::
  "keyptr list \<Rightarrow> 'v option list \<Rightarrow> string \<Rightarrow> nat \<Rightarrow> nat \<Rightarrow> 'v option option" where
  "get_loop ks vs k msk i =
     (if ks ! i \<noteq> NULL then
        (if ks ! i \<noteq> TOMBSTONE \<and> ks ! i = Str k then Some (vs ! i)
         else get_loop ks vs k msk ((i + 1) AND msk))
      else Some None)"

definition map_get_nostack :: "'v Map \<Rightarrow> string \<Rightarrow> 'v option option" where
  "map_get_nostack m k =
     (case key m of
        None \<Rightarrow> Some None
      | Some ks \<Rightarrow>
          (let msk = size_m m - 1 in get_loop ks (val m) k msk (unat (hash k) AND msk)))"

text \<open>
  The tables live in a store, from addresses to tables; a \<open>Map *\<close> is an address.
  \<open>map_get\<close> follows the parent pointers. Reading an address that holds no table does
  not return a result either.
\<close>

type_synonym 'v maps = "nat \<Rightarrow> 'v Map option"

partial_function (option) map_get :: "'v maps \<Rightarrow> nat \<Rightarrow> string \<Rightarrow> 'v option option" where
  "map_get h m k =
     (case h m of
        None \<Rightarrow> None
      | Some t \<Rightarrow>
          (case map_get_nostack t k of
             None \<Rightarrow> None
           | Some (Some r) \<Rightarrow> Some (Some r)
           | Some None \<Rightarrow>
               (case parent t of Some p \<Rightarrow> map_get h p k | None \<Rightarrow> Some None)))"

subsection \<open>map_put, map_remove, map_len\<close>

partial_function (option) put_loop ::
  "'v Map \<Rightarrow> keyptr list \<Rightarrow> string \<Rightarrow> 'v option \<Rightarrow> nat \<Rightarrow> nat \<Rightarrow> 'v Map option" where
  "put_loop m ks k v msk i =
     (if ks ! i = NULL \<or> ks ! i = TOMBSTONE then
        Some (m\<lparr>key := Some (ks[i := Str k]), val := (val m)[i := v],
                nelem := nelem m + 1,
                nused := (if ks ! i = NULL then nused m + 1 else nused m)\<rparr>)
      else if ks ! i = Str k then Some (m\<lparr>val := (val m)[i := v]\<rparr>)
      else put_loop m ks k v msk ((i + 1) AND msk))"

definition map_put :: "'v Map \<Rightarrow> string \<Rightarrow> 'v option \<Rightarrow> 'v Map option" where
  "map_put m0 k v =
     (case maybe_rehash m0 of
        None \<Rightarrow> None
      | Some m \<Rightarrow>
          (case key m of
             None \<Rightarrow> None
           | Some ks \<Rightarrow>
               (let msk = size_m m - 1 in put_loop m ks k v msk (unat (hash k) AND msk))))"

partial_function (option) remove_loop ::
  "'v Map \<Rightarrow> keyptr list \<Rightarrow> string \<Rightarrow> nat \<Rightarrow> nat \<Rightarrow> 'v Map option" where
  "remove_loop m ks k msk i =
     (if ks ! i \<noteq> NULL then
        (if ks ! i = TOMBSTONE \<or> ks ! i \<noteq> Str k then remove_loop m ks k msk ((i + 1) AND msk)
         else Some (m\<lparr>key := Some (ks[i := TOMBSTONE]), val := (val m)[i := None],
                      nelem := nelem m - 1\<rparr>))
      else Some m)"

definition map_remove :: "'v Map \<Rightarrow> string \<Rightarrow> 'v Map option" where
  "map_remove m k =
     (case key m of
        None \<Rightarrow> Some m
      | Some ks \<Rightarrow>
          (let msk = size_m m - 1 in remove_loop m ks k msk (unat (hash k) AND msk)))"

definition map_len :: "'v Map \<Rightarrow> nat" where
  "map_len m = nelem m"

subsection \<open>Iteration\<close>

text \<open>
  \<open>struct MapIter\<close>: the table the iteration started from, the table being scanned
  (null when the iteration is over) and the next slot of it.
\<close>

record MapIter =
  map_it :: nat
  cur :: "nat option"
  i_it :: nat

definition map_iter :: "nat \<Rightarrow> MapIter" where
  "map_iter m = \<lparr>map_it = m, cur = Some m, i_it = 0\<rparr>"

text \<open>
  \<open>do_map_next\<close> scans the current table \<open>m\<close> from slot \<open>i\<close> on. It returns the key
  found, with the value written through \<open>val\<close>, and the new \<open>iter->i\<close>.
\<close>

function do_map_next :: "'v Map \<Rightarrow> nat \<Rightarrow> ((string \<times> 'v option) option \<times> nat) option" where
  "do_map_next m i =
     (if i < size_m m then
        (case key m of
           None \<Rightarrow> None
         | Some ks \<Rightarrow>
             (case ks ! i of
                Str k \<Rightarrow> Some (Some (k, val m ! i), i + 1)
              | _ \<Rightarrow> do_map_next m (i + 1)))
      else Some (None, size_m m))"
  by pat_completeness auto
termination
  by (relation "measure (\<lambda>(m, i). size_m m - i)") auto

declare do_map_next.simps [simp del]

text \<open>
  \<open>is_dup\<close> walks from \<open>iter->map\<close> (here \<open>p\<close>, a pointer that may become null) up to
  \<open>iter->cur\<close>, comparing addresses.
\<close>

partial_function (option) is_dup_loop ::
  "'v maps \<Rightarrow> nat option \<Rightarrow> nat option \<Rightarrow> string \<Rightarrow> bool option" where
  "is_dup_loop h c p k =
     (if p \<noteq> c then
        (case p of
           None \<Rightarrow> None
         | Some a \<Rightarrow>
             (case h a of
                None \<Rightarrow> None
              | Some t \<Rightarrow>
                  (case map_get_nostack t k of
                     None \<Rightarrow> None
                   | Some (Some r) \<Rightarrow> Some True
                   | Some None \<Rightarrow> is_dup_loop h c (parent t) k)))
      else Some False)"

definition is_dup :: "'v maps \<Rightarrow> MapIter \<Rightarrow> string \<Rightarrow> bool option" where
  "is_dup h iter k = is_dup_loop h (cur iter) (Some (map_it iter)) k"

text \<open>
  The \<open>for (;;)\<close> loop of \<open>map_next\<close>, in the table \<open>t\<close> at \<open>iter->cur\<close>: the next key
  of \<open>t\<close> that no more nested table binds, or no key, with the iterator as it is then.
\<close>

partial_function (option) map_next_loop ::
  "'v maps \<Rightarrow> 'v Map \<Rightarrow> MapIter \<Rightarrow> ((string \<times> 'v option) option \<times> MapIter) option" where
  "map_next_loop h t iter =
     (case do_map_next t (i_it iter) of
        None \<Rightarrow> None
      | Some (None, i') \<Rightarrow> Some (None, iter\<lparr>i_it := i'\<rparr>)
      | Some (Some (k, v), i') \<Rightarrow>
          (case is_dup h (iter\<lparr>i_it := i'\<rparr>) k of
             None \<Rightarrow> None
           | Some dup \<Rightarrow>
               if dup then map_next_loop h t (iter\<lparr>i_it := i'\<rparr>)
               else Some (Some (k, v), iter\<lparr>i_it := i'\<rparr>)))"

partial_function (option) map_next ::
  "'v maps \<Rightarrow> MapIter \<Rightarrow> ((string \<times> 'v option) option \<times> MapIter) option" where
  "map_next h iter =
     (case cur iter of
        None \<Rightarrow> Some (None, iter)
      | Some c \<Rightarrow>
          (case h c of
             None \<Rightarrow> None
           | Some t \<Rightarrow>
               (case map_next_loop h t iter of
                  None \<Rightarrow> None
                | Some (Some kv, iter') \<Rightarrow> Some (Some kv, iter')
                | Some (None, iter') \<Rightarrow>
                    (case parent t of
                       Some p \<Rightarrow> map_next h (iter'\<lparr>cur := Some p, i_it := 0\<rparr>)
                     | None \<Rightarrow> Some (None, iter'\<lparr>cur := None\<rparr>)))))"

subsection \<open>Clients of the table\<close>

text \<open>
  A sequence of \<open>map_put\<close> and \<open>map_remove\<close> calls on one table, and a complete
  iteration: \<open>map_next\<close> called until it returns null, collecting what it yields.
\<close>

datatype 'v op = Put string "'v option" | Remove string

fun apply_ops :: "'v op list \<Rightarrow> 'v Map \<Rightarrow> 'v Map option" where
  "apply_ops [] m = Some m"
| "apply_ops (Put k v # ops) m =
     (case map_put m k v of None \<Rightarrow> None | Some m' \<Rightarrow> apply_ops ops m')"
| "apply_ops (Remove k # ops) m =
     (case map_remove m k of None \<Rightarrow> None | Some m' \<Rightarrow> apply_ops ops m')"

partial_function (option) iterate ::
  "'v maps \<Rightarrow> MapIter \<Rightarrow> (string \<times> 'v option) list option" where
  "iterate h iter =
     (case map_next h iter of
        None \<Rightarrow> None
      | Some (None, iter') \<Rightarrow> Some []
      | Some (Some kv, iter') \<Rightarrow> Option.bind (iterate h iter') (\<lambda>kvs. Some (kv # kvs)))"

section \<open>The code generator of codegen.c\<close>

subsection \<open>Data\<close>

definition NUMREGS :: nat where
  "NUMREGS = 6"

definition regs :: "string list" where
  "regs = [''rdi'', ''rsi'', ''rdx'', ''rcx'', ''r8'', ''r9'']"

record Mem =
  m_off :: int
  m_size :: int

text \<open>
  \<open>struct Var\<close> is a tagged union. A \<open>Var *\<close> is an address of the store \<open>heap\<close>
  below. \<open>make_var\<close> sets \<open>kind\<close> and \<open>id\<close> only: the fields \<open>ptr\<close>, \<open>off\<close> and
  \<open>spilled\<close> of the object keep what \<open>malloc\<close> returned, three values that the model
  takes from its environment (a \<open>junk\<close>).
\<close>

datatype Var =
  VAR (var_id: int) (ptr: "Mem option") (off: int) (spilled: bool)
| LIT (lit_val: int)

type_synonym junk = "Mem option \<times> int \<times> bool"

datatype inst_kind = ADD | MUL | RET | ALLOC | LOAD | STORE

text \<open>The operands of an instruction are \<open>void *\<close>: null, a \<open>Var *\<close> or a \<open>Mem *\<close>.\<close>

datatype arg = ArgNull | ArgVar nat | ArgMem Mem

record Inst =
  kind :: inst_kind
  arg1 :: arg
  arg2 :: arg
  arg3 :: arg
  size_i :: int

record Func =
  name :: string
  f_insts :: "Inst list"

record Regmap =
  v_r :: "nat option"
  reg_r :: string

text \<open>
  Modelled from the spec: \<open>Node\<close>, the tree of the front end (declared in 8cc.h, which is
  not among the sources), with the fields that \<open>walk\<close> and \<open>translate\<close> read: a
  declaration has the size of its type, its name and the initial values of its
  initialiser list; a literal has the kind of its type and its value; a binary node has
  its operator character as its kind.
\<close>

datatype ty_kind = KIND_INT | KIND_OTHER

datatype Node =
  AST_LITERAL ty_kind int
| AST_LVAR string
| AST_DECL int string "Node list"
| AST_COMPOUND_STMT "Node list"
| AST_RETURN Node
| AST_CONV Node
| AST_BINOP char Node Node
| AST_FUNC string Node
| AST_OTHER

datatype error = Unknown_node | Assertion_failed | Internal_error | Bad_access | No_return

text \<open>
  The static variables of codegen.c. \<open>lvars\<close> is the table at \<open>&EMPTY_MAP\<close>; \<open>out\<close> is
  the text written to the file so far, line by line (every \<open>write\<close> ends its line);
  \<open>heap\<close> holds the \<open>Var\<close> objects, the address of an object being its index;
  \<open>next_id\<close> is the static \<open>id\<close> of \<open>make_var\<close>.
\<close>

record cg =
  mems :: "Mem list"
  lvars :: "Mem Map"
  vars :: "nat list"
  insts :: "Inst list"
  offset :: int
  out :: "string list"
  reg2var :: "Regmap list"
  heap :: "Var list"
  next_id :: int

definition cg_init :: cg where
  "cg_init =
     \<lparr>mems = [], lvars = EMPTY_MAP, vars = [], insts = [], offset = 0, out = [],
      reg2var = replicate NUMREGS \<lparr>v_r = None, reg_r = []\<rparr>, heap = [], next_id = 1\<rparr>"

subsection \<open>Constructors\<close>

definition make_mem :: "int \<Rightarrow> cg \<Rightarrow> Mem \<times> cg" where
  "make_mem sz st =
     (let st' = st\<lparr>offset := offset st + sz\<rparr>
      in (\<lparr>m_off = - offset st', m_size = sz\<rparr>, st'))"

definition make_var :: "junk \<Rightarrow> cg \<Rightarrow> nat \<times> cg" where
  "make_var u st =
     (let r = length (heap st)
      in (r, st\<lparr>heap := heap st @ [VAR (next_id st) (fst u) (fst (snd u)) (snd (snd u))],
                next_id := next_id st + 1,
                vars := vars st @ [r]\<rparr>))"

definition alloc :: "int \<Rightarrow> cg \<Rightarrow> Mem \<times> cg" where
  "alloc sz st = (case make_mem sz st of (m, st') \<Rightarrow> (m, st'\<lparr>mems := mems st' @ [m]\<rparr>))"

definition make_literal :: "int \<Rightarrow> cg \<Rightarrow> nat \<times> cg" where
  "make_literal n st = (length (heap st), st\<lparr>heap := heap st @ [LIT n]\<rparr>)"

subsection \<open>Node to Inst\<close>

definition emit :: "Inst \<Rightarrow> cg \<Rightarrow> cg" where
  "emit ins st = st\<lparr>insts := insts st @ [ins]\<rparr>"

definition arg_of :: "nat option \<Rightarrow> arg" where
  "arg_of p = (case p of None \<Rightarrow> ArgNull | Some a \<Rightarrow> ArgVar a)"

text \<open>The store of tables that \<open>map_get (lvars, ...)\<close> reads: the one table, at address 0.\<close>

definition lvars_store :: "cg \<Rightarrow> Mem maps" where
  "lvars_store st = (\<lambda>a. if a = 0 then Some (lvars st) else None)"

text \<open>
  \<open>walk\<close> returns a \<open>Var *\<close>, null for a statement. \<open>U\<close> gives the junk of the object
  that \<open>malloc\<close> returns at an address. A failed \<open>assert\<close> and \<open>error\<close> end the program.
\<close>

fun walk :: "(nat \<Rightarrow> junk) \<Rightarrow> Node \<Rightarrow> cg \<Rightarrow> error + (nat option \<times> cg)"
  and walk_stmts :: "(nat \<Rightarrow> junk) \<Rightarrow> Node list \<Rightarrow> cg \<Rightarrow> error + cg" where
  "walk U (AST_DECL sz nm []) st =
     (case alloc (max sz 8) st of
        (m, st1) \<Rightarrow>
          (case map_put (lvars st1) nm (Some m) of
             None \<Rightarrow> Inl No_return
           | Some t \<Rightarrow> Inr (None, st1\<lparr>lvars := t\<rparr>)))"
| "walk U (AST_DECL sz nm (init # rest)) st =
     (case alloc (max sz 8) st of
        (m, st1) \<Rightarrow>
          (case map_put (lvars st1) nm (Some m) of
             None \<Rightarrow> Inl No_return
           | Some t \<Rightarrow>
               (case walk U init (st1\<lparr>lvars := t\<rparr>) of
                  Inl e \<Rightarrow> Inl e
                | Inr (rhs, st2) \<Rightarrow>
                    Inr (None, emit \<lparr>kind = STORE, arg1 = ArgMem m, arg2 = arg_of rhs,
                                     arg3 = ArgNull, size_i = 0\<rparr> st2))))"
| "walk U (AST_LVAR nm) st =
     (case map_get (lvars_store st) 0 nm of
        None \<Rightarrow> Inl No_return
      | Some None \<Rightarrow> Inl Assertion_failed
      | Some (Some m) \<Rightarrow>
          (case make_var (U (length (heap st))) st of
             (r, st1) \<Rightarrow>
               Inr (Some r, emit \<lparr>kind = LOAD, arg1 = ArgVar r, arg2 = ArgMem m,
                                  arg3 = ArgNull, size_i = 0\<rparr> st1)))"
| "walk U (AST_COMPOUND_STMT body) st =
     (case walk_stmts U body st of Inl e \<Rightarrow> Inl e | Inr st1 \<Rightarrow> Inr (None, st1))"
| "walk U (AST_RETURN retval) st =
     (case walk U retval st of
        Inl e \<Rightarrow> Inl e
      | Inr (v, st1) \<Rightarrow>
          Inr (None, emit \<lparr>kind = RET, arg1 = arg_of v, arg2 = ArgNull, arg3 = ArgNull,
                           size_i = 0\<rparr> st1))"
| "walk U (AST_CONV operand) st = walk U operand st"
| "walk U (AST_BINOP c left right) st =
     (if c = CHR ''+'' \<or> c = CHR ''*'' then
        (case make_var (U (length (heap st))) st of
           (dst, st1) \<Rightarrow>
             (case walk U left st1 of
                Inl e \<Rightarrow> Inl e
              | Inr (lhs, st2) \<Rightarrow>
                  (case walk U right st2 of
                     Inl e \<Rightarrow> Inl e
                   | Inr (rhs, st3) \<Rightarrow>
                       Inr (Some dst,
                            emit \<lparr>kind = (if c = CHR ''+'' then ADD else MUL),
                                  arg1 = ArgVar dst, arg2 = arg_of lhs, arg3 = arg_of rhs,
                                  size_i = 0\<rparr> st3))))
      else Inl Unknown_node)"
| "walk U (AST_LITERAL tk n) st =
     (if tk = KIND_INT then (case make_literal n st of (r, st1) \<Rightarrow> Inr (Some r, st1))
      else Inl Assertion_failed)"
| "walk U (AST_FUNC nm body) st = Inl Unknown_node"
| "walk U AST_OTHER st = Inl Unknown_node"
| "walk_stmts U [] st = Inr st"
| "walk_stmts U (n # ns) st =
     (case walk U n st of Inl e \<Rightarrow> Inl e | Inr (v, st1) \<Rightarrow> walk_stmts U ns st1)"

definition make_func :: "string \<Rightarrow> Inst list \<Rightarrow> Func" where
  "make_func nm is = \<lparr>name = nm, f_insts = is\<rparr>"

definition translate :: "(nat \<Rightarrow> junk) \<Rightarrow> Node list \<Rightarrow> cg \<Rightarrow> error + (Func \<times> cg)" where
  "translate U toplevels st =
     (case toplevels of
        [node] \<Rightarrow>
          (case node of
             AST_FUNC nm body \<Rightarrow>
               (case walk U body st of
                  Inl e \<Rightarrow> Inl e
                | Inr (v, st1) \<Rightarrow> Inr (make_func nm (insts st1), st1))
           | _ \<Rightarrow> Inl Assertion_failed)
      | _ \<Rightarrow> Inl Assertion_failed)"

subsection \<open>Writing text\<close>

text \<open>What \<open>printf\<close> writes for \<open>%d\<close>: the decimal digits, after a minus sign if negative.\<close>

function show_nat :: "nat \<Rightarrow> string" where
  "show_nat n =
     (if n < 10 then [''0123456789'' ! n]
      else show_nat (n div 10) @ [''0123456789'' ! (n mod 10)])"
  by pat_completeness auto
termination
  by (relation "measure (\<lambda>n. n)") auto

declare show_nat.simps [simp del]

definition show_int :: "int \<Rightarrow> string" where
  "show_int i = (if i < 0 then ''-'' @ show_nat (nat (- i)) else show_nat (nat i))"

definition write_noindent :: "string \<Rightarrow> cg \<Rightarrow> cg" where
  "write_noindent s st = st\<lparr>out := out st @ [s]\<rparr>"

text \<open>\<open>write\<close> of the source: four spaces, the text, the end of the line.\<close>

definition write_ind :: "string \<Rightarrow> cg \<Rightarrow> cg" where
  "write_ind s st = st\<lparr>out := out st @ [''    '' @ s]\<rparr>"

subsection \<open>Register allocator\<close>

function move_loop :: "Regmap list \<Rightarrow> nat \<Rightarrow> Regmap list" where
  "move_loop r j = (if j > 0 then move_loop (r[j := r ! (j - 1)]) (j - 1) else r)"
  by pat_completeness auto
termination
  by (relation "measure (\<lambda>(r, j). j)") auto

declare move_loop.simps [simp del]

definition move_to_head :: "Regmap list \<Rightarrow> nat \<Rightarrow> Regmap list" where
  "move_to_head r i =
     (let v = v_r (r ! i); reg = reg_r (r ! i)
      in (move_loop r i)[0 := \<lparr>v_r = v, reg_r = reg\<rparr>])"

text \<open>
  The two search loops of \<open>regname\<close>. Each returns what \<open>regname\<close> returns from inside
  the loop (the register and the new \<open>reg2var\<close>), or nothing when the loop ends.
\<close>

function cached_loop :: "nat \<Rightarrow> Regmap list \<Rightarrow> nat \<Rightarrow> (string \<times> Regmap list) option" where
  "cached_loop v r i =
     (if i < NUMREGS then
        (if v_r (r ! i) \<noteq> Some v then cached_loop v r (i + 1)
         else (let r' = move_to_head r i in Some (reg_r (r' ! 0), r')))
      else None)"
  by pat_completeness auto
termination
  by (relation "measure (\<lambda>(v, r, i). NUMREGS - i)") auto

declare cached_loop.simps [simp del]

function empty_loop :: "nat \<Rightarrow> Regmap list \<Rightarrow> nat \<Rightarrow> (string \<times> Regmap list) option" where
  "empty_loop v r i =
     (if i < NUMREGS then
        (if v_r (r ! i) \<noteq> None then empty_loop v r (i + 1)
         else Some (regs ! i, move_to_head (r[i := \<lparr>v_r = Some v, reg_r = regs ! i\<rparr>]) i))
      else None)"
  by pat_completeness auto
termination
  by (relation "measure (\<lambda>(v, r, i). NUMREGS - i)") auto

declare empty_loop.simps [simp del]

text \<open>
  Reading the object at an address. The fields \<open>off\<close> and \<open>spilled\<close> exist in a
  \<open>VAR\<close> object only: the access fails for a literal and for an address without object.
\<close>

definition deref :: "cg \<Rightarrow> nat \<Rightarrow> Var option" where
  "deref st p = (if p < length (heap st) then Some (heap st ! p) else None)"

definition set_spilled :: "Var \<Rightarrow> Var" where
  "set_spilled x = (case x of VAR i p q s \<Rightarrow> VAR i p q True | LIT n \<Rightarrow> LIT n)"

text \<open>The last part of \<open>regname\<close>: no slot holds \<open>v\<close> and no slot is empty.\<close>

definition spill :: "nat \<Rightarrow> cg \<Rightarrow> error + (string \<times> cg)" where
  "spill v st =
     (let last = reg2var st ! (NUMREGS - 1); reg = reg_r last in
      case v_r last of
        None \<Rightarrow> Inl Bad_access
      | Some lv \<Rightarrow>
          (case deref st lv of
             Some (VAR li lp loff ls) \<Rightarrow>
               (let st1 = write_ind (''movq %'' @ reg @ '', '' @ show_int loff @ ''(%rbp)  # spill'') st;
                    st2 = st1\<lparr>heap := (heap st1)[lv := set_spilled (heap st1 ! lv)]\<rparr>
                in case deref st2 v of
                     Some (VAR vi vp voff vs) \<Rightarrow>
                       (let st3 = (if vs
                                   then write_ind (''movq '' @ show_int voff @ ''(%rbp), %'' @ reg @ ''  # load'') st2
                                   else st2);
                            r = (reg2var st3)[NUMREGS - 1 := \<lparr>v_r = Some v, reg_r = reg\<rparr>]
                        in Inr (reg, st3\<lparr>reg2var := move_to_head r (NUMREGS - 1)\<rparr>))
                   | _ \<Rightarrow> Inl Bad_access)
           | _ \<Rightarrow> Inl Bad_access))"

definition regname :: "nat \<Rightarrow> cg \<Rightarrow> error + (string \<times> cg)" where
  "regname v st =
     (case cached_loop v (reg2var st) 0 of
        Some (reg, r) \<Rightarrow> Inr (reg, st\<lparr>reg2var := r\<rparr>)
      | None \<Rightarrow>
          (case empty_loop v (reg2var st) 0 of
             Some (reg, r) \<Rightarrow> Inr (reg, st\<lparr>reg2var := r\<rparr>)
           | None \<Rightarrow> spill v st))"

subsection \<open>Inst to assembly\<close>

text \<open>\<open>str\<close> of an operand that the source casts to \<open>Var *\<close>.\<close>

definition str :: "arg \<Rightarrow> cg \<Rightarrow> error + (string \<times> cg)" where
  "str a st =
     (case a of
        ArgVar p \<Rightarrow>
          (case deref st p of
             None \<Rightarrow> Inl Bad_access
           | Some (LIT n) \<Rightarrow> Inr (''$'' @ show_int n, st)
           | Some (VAR i q f s) \<Rightarrow>
               (case regname p st of
                  Inl e \<Rightarrow> Inl e
                | Inr (reg, st1) \<Rightarrow> Inr (''%'' @ reg, st1)))
      | _ \<Rightarrow> Inl Bad_access)"

text \<open>
  Two calls of \<open>str\<close> that are arguments of one call of \<open>write\<close>: C leaves the order of
  their evaluation to the compiler. \<open>ltr\<close> says whether the left one is evaluated first.
  The result pairs the strings in the order of the arguments.
\<close>

definition str2 :: "bool \<Rightarrow> arg \<Rightarrow> arg \<Rightarrow> cg \<Rightarrow> error + ((string \<times> string) \<times> cg)" where
  "str2 ltr a b st =
     (if ltr then
        (case str a st of
           Inl e \<Rightarrow> Inl e
         | Inr (sa, st1) \<Rightarrow>
             (case str b st1 of Inl e \<Rightarrow> Inl e | Inr (sb, st2) \<Rightarrow> Inr ((sa, sb), st2)))
      else
        (case str b st of
           Inl e \<Rightarrow> Inl e
         | Inr (sb, st1) \<Rightarrow>
             (case str a st1 of Inl e \<Rightarrow> Inl e | Inr (sa, st2) \<Rightarrow> Inr ((sa, sb), st2))))"

definition print_inst :: "bool \<Rightarrow> Inst \<Rightarrow> cg \<Rightarrow> error + cg" where
  "print_inst ltr ins st =
     (case kind ins of
        ADD \<Rightarrow>
          (case str2 ltr (arg2 ins) (arg1 ins) st of
             Inl e \<Rightarrow> Inl e
           | Inr ((s2, s1), st1) \<Rightarrow>
               (case str2 ltr (arg3 ins) (arg1 ins) (write_ind (''movq '' @ s2 @ '', '' @ s1) st1) of
                  Inl e \<Rightarrow> Inl e
                | Inr ((s3, s1'), st2) \<Rightarrow> Inr (write_ind (''addq '' @ s3 @ '', '' @ s1') st2)))
      | MUL \<Rightarrow>
          (case str2 ltr (arg2 ins) (arg1 ins) st of
             Inl e \<Rightarrow> Inl e
           | Inr ((s2, s1), st1) \<Rightarrow>
               (case str2 ltr (arg3 ins) (arg1 ins) (write_ind (''movq '' @ s2 @ '', '' @ s1) st1) of
                  Inl e \<Rightarrow> Inl e
                | Inr ((s3, s1'), st2) \<Rightarrow> Inr (write_ind (''imulq '' @ s3 @ '', '' @ s1') st2)))
      | RET \<Rightarrow>
          (case str (arg1 ins) st of
             Inl e \<Rightarrow> Inl e
           | Inr (s1, st1) \<Rightarrow> Inr (write_ind ''jmp end'' (write_ind (''movq '' @ s1 @ '', %rax'') st1)))
      | LOAD \<Rightarrow>
          (case arg2 ins of
             ArgMem rhs \<Rightarrow>
               (case str (arg1 ins) st of
                  Inl e \<Rightarrow> Inl e
                | Inr (s1, st1) \<Rightarrow>
                    Inr (write_ind (''movq '' @ show_int (m_off rhs) @ ''(%rbp), '' @ s1) st1))
           | _ \<Rightarrow> Inl Bad_access)
      | STORE \<Rightarrow>
          (case arg1 ins of
             ArgMem lhs \<Rightarrow>
               (case str (arg2 ins) st of
                  Inl e \<Rightarrow> Inl e
                | Inr (s2, st1) \<Rightarrow>
                    Inr (write_ind (''movq '' @ s2 @ '', '' @ show_int (m_off lhs) @ ''(%rbp)'') st1))
           | _ \<Rightarrow> Inl Bad_access)
      | ALLOC \<Rightarrow> Inl Internal_error)"

fun print_loop :: "bool \<Rightarrow> Inst list \<Rightarrow> cg \<Rightarrow> error + cg" where
  "print_loop ltr [] st = Inr st"
| "print_loop ltr (ins # rest) st =
     (case print_inst ltr ins st of Inl e \<Rightarrow> Inl e | Inr st1 \<Rightarrow> print_loop ltr rest st1)"

definition print :: "bool \<Rightarrow> Func \<Rightarrow> cg \<Rightarrow> error + cg" where
  "print ltr f st = print_loop ltr (f_insts f) st"

text \<open>
  \<open>regalloc\<close> gives every object of \<open>vars\<close> its stack offset. Writing \<open>off\<close> leaves
  the other fields of the object as they are.
\<close>

definition set_off :: "int \<Rightarrow> Var \<Rightarrow> Var" where
  "set_off f x = (case x of VAR i p q s \<Rightarrow> VAR i p f s | LIT n \<Rightarrow> LIT n)"

fun regalloc_loop :: "nat list \<Rightarrow> cg \<Rightarrow> cg" where
  "regalloc_loop [] st = st"
| "regalloc_loop (v # vs) st =
     (let st1 = st\<lparr>offset := offset st + 8\<rparr>
      in regalloc_loop vs (st1\<lparr>heap := (heap st1)[v := set_off (- offset st1) (heap st1 ! v)]\<rparr>))"

definition regalloc :: "cg \<Rightarrow> cg" where
  "regalloc st = regalloc_loop (vars st) st"

definition compile :: "bool \<Rightarrow> Func \<Rightarrow> cg \<Rightarrow> error + cg" where
  "compile ltr f st0 =
     (let st1 = regalloc st0;
          st2 = write_noindent ''.text'' st1;
          st3 = write_noindent (''.globl '' @ name f) st2;
          st4 = write_noindent (name f @ '':'') st3;
          st5 = write_ind ''push %rbp'' st4;
          st6 = write_ind ''mov %rsp, %rbp'' st5;
          st7 = write_ind (''sub $'' @ show_int (offset st6) @ '', %rsp'') st6
      in case print ltr f st7 of
           Inl e \<Rightarrow> Inl e
         | Inr st8 \<Rightarrow>
             (let st9 = write_ind ''end:'' st8;
                  st10 = write_ind (''add $'' @ show_int (offset st9) @ '', %rsp'') st9;
                  st11 = write_ind ''popq %rbp'' st10
              in Inr (write_ind ''ret'' st11)))"

definition codegen :: "(nat \<Rightarrow> junk) \<Rightarrow> bool \<Rightarrow> Node list \<Rightarrow> cg \<Rightarrow> error + cg" where
  "codegen U ltr toplevels st =
     (case translate U toplevels st of
        Inl e \<Rightarrow> Inl e
      | Inr (f, st1) \<Rightarrow> compile ltr f st1)"

text \<open>A client of the allocator: the operands resolved one after the other.\<close>

fun resolve_all :: "nat list \<Rightarrow> cg \<Rightarrow> error + cg" where
  "resolve_all [] st = Inr st"
| "resolve_all (v # vs) st =
     (case regname v st of Inl e \<Rightarrow> Inl e | Inr (reg, st1) \<Rightarrow> resolve_all vs st1)"

subsection \<open>The slots as a list of values\<close>

text \<open>
  \<open>slots_are r xs\<close>: the six slots \<open>r\<close> hold the distinct values \<open>xs\<close>, in this
  order, followed by the empty slots.
\<close>

definition slots_are :: "Regmap list \<Rightarrow> nat list \<Rightarrow> bool" where
  "slots_are r xs \<longleftrightarrow>
     length r = NUMREGS \<and> distinct xs \<and> length xs \<le> NUMREGS \<and>
     map v_r r = map Some xs @ replicate (NUMREGS - length xs) None"

definition is_str :: "keyptr \<Rightarrow> bool" where
  "is_str k = (case k of Str s \<Rightarrow> True | _ \<Rightarrow> False)"

definition used_slots :: "'v Map \<Rightarrow> nat" where
  "used_slots m = (case key m of None \<Rightarrow> 0 | Some ks \<Rightarrow> length (filter (\<lambda>k. k \<noteq> NULL) ks))"

definition live_slots :: "'v Map \<Rightarrow> nat" where
  "live_slots m = (case key m of None \<Rightarrow> 0 | Some ks \<Rightarrow> length (filter is_str ks))"

definition capacity :: "'v Map \<Rightarrow> nat" where
  "capacity m = (case key m of None \<Rightarrow> 0 | Some ks \<Rightarrow> length ks)"

definition table_ok :: "'v Map \<Rightarrow> bool" where
  "table_ok m \<longleftrightarrow>
     size_m m = capacity m \<and> nused m = used_slots m \<and> nelem m = live_slots m \<and>
     10 * nused m < 7 * size_m m + 10 \<and>
     (case key m of
        None \<Rightarrow> True
      | Some ks \<Rightarrow> length (val m) = length ks \<and> (\<exists>e. 4 \<le> e \<and> length ks = 2 ^ e))"

definition bound :: "'v Map \<Rightarrow> string \<Rightarrow> bool" where
  "bound m k = (case key m of None \<Rightarrow> False | Some ks \<Rightarrow> Str k \<in> set ks)"

definition same_frame :: "cg \<Rightarrow> cg \<Rightarrow> bool" where
  "same_frame st st' \<longleftrightarrow>
     mems st' = mems st \<and> vars st' = vars st \<and> offset st' = offset st \<and>
     (\<exists>ls. out st' = out st @ ls)"

definition slack :: "cg \<Rightarrow> int" where
  "slack st = offset st - sum_list (map m_size (mems st))"

definition mru :: "nat list \<Rightarrow> nat list" where
  "mru s = rev (remdups s)"

definition objs_kept :: "cg \<Rightarrow> cg \<Rightarrow> bool" where
  "objs_kept st st' \<longleftrightarrow>
     (\<forall>x i p f b. deref st x = Some (VAR i p f b) \<longrightarrow> (\<exists>b'. deref st' x = Some (VAR i p f b')))"

section \<open>Example inputs\<close>

text \<open>
  Two keys with the same first slot in a table of 16 slots, \<open>a\<close> and \<open>q\<close> (slot 12):
  the second \<open>map_put\<close> of \<open>q\<close> comes after \<open>a\<close> was removed.
\<close>

definition dup_ops :: "nat op list" where
  "dup_ops = [Put ''a'' (Some 1), Put ''q'' (Some 2), Remove ''a'', Put ''q'' (Some 3)]"

text \<open>
  The same with \<open>P\<close> and \<open>p\<close>, whose first slot is the last one (slot 15), followed by
  eleven other keys: the last \<open>map_put\<close> finds 12 used slots and doubles the table.
\<close>

definition stale_ops :: "nat op list" where
  "stale_ops =
     [Put ''P'' (Some 1), Put ''p'' (Some 2), Remove ''P'', Put ''p'' (Some 3),
      Put ''a'' (Some 10), Put ''b'' (Some 11), Put ''c'' (Some 12), Put ''d'' (Some 13),
      Put ''e'' (Some 14), Put ''f'' (Some 15), Put ''g'' (Some 16), Put ''h'' (Some 17),
      Put ''i'' (Some 18), Put ''j'' (Some 19), Put ''k'' (Some 20)]"

definition twelve_ops :: "nat op list" where
  "twelve_ops =
     map (\<lambda>k. Put k (Some 1))
       [''a'', ''b'', ''c'', ''d'', ''e'', ''f'', ''g'', ''h'', ''i'', ''j'', ''k'', ''l'']"

text \<open>A parent table \<open>A\<close> at address 0 and its child \<open>B\<close> at address 1, both binding \<open>q\<close>.\<close>

definition table_A :: "nat Map" where
  "table_A = the (apply_ops [Put ''q'' (Some 7)] make_map)"

definition table_B :: "nat Map" where
  "table_B = the (apply_ops dup_ops (make_map_parent 0))"

definition store_AB :: "nat maps" where
  "store_AB = (\<lambda>a. if a = 0 then Some table_A else if a = 1 then Some table_B else None)"

text \<open>\<open>int f() { int a = 1; int b = 2; return a + b; }\<close>\<close>

definition fn_ab :: "Node list" where
  "fn_ab =
     [AST_FUNC ''f'' (AST_COMPOUND_STMT
        [AST_DECL 4 ''a'' [AST_LITERAL KIND_INT 1],
         AST_DECL 4 ''b'' [AST_LITERAL KIND_INT 2],
         AST_RETURN (AST_BINOP CHR ''+'' (AST_LVAR ''a'') (AST_LVAR ''b''))])]"

text \<open>
  Seven computed values made by \<open>make_var\<close>, each in memory with the junk \<open>u\<close>,
  after \<open>regalloc\<close>.
\<close>

fun make_vars :: "junk list \<Rightarrow> cg \<Rightarrow> cg" where
  "make_vars [] st = st"
| "make_vars (u # us) st = make_vars us (snd (make_var u st))"

definition seven_vars :: "junk \<Rightarrow> cg" where
  "seven_vars u = regalloc (make_vars (replicate 7 u) cg_init)"

section \<open>Evaluation\<close>

lemmas map_eval = map_put_def maybe_rehash_def make_map_def make_map_parent_def do_make_map_def
  INIT_SIZE_def hash_def char_val_def put_loop.simps map_remove_def remove_loop.simps
  map_get_nostack_def get_loop.simps map_get.simps EMPTY_MAP_def rehash_probe.simps
  map_len_def nth_list_update rehash_loop.simps

lemmas iter_eval = do_map_next.simps map_iter_def is_dup_def is_dup_loop.simps
  map_next_loop.simps map_next.simps iterate.simps

lemmas cg_eval = codegen_def translate_def make_func_def alloc_def make_mem_def make_var_def
  make_literal_def emit_def arg_of_def lvars_store_def cg_init_def compile_def regalloc_def
  print_def print_inst_def str2_def str_def regname_def spill_def deref_def set_off_def
  set_spilled_def write_ind_def write_noindent_def show_int_def show_nat.simps
  move_to_head_def regs_def NUMREGS_def
  move_loop.simps cached_loop.simps empty_loop.simps Let_def

section \<open>Facts about the hash table\<close>

lemma and_pow2_mask: "(x::nat) AND (2 ^ e - 1) = x mod 2 ^ e"
proof -
  have "x AND mask e = x mod 2 ^ e"
    by (simp add: take_bit_eq_mod flip: take_bit_eq_mask)
  then show ?thesis
    unfolding mask_eq_exp_minus_1 .
qed

lemma and_15_le: "(x::nat) AND 15 \<le> 15"
proof -
  have "x AND (2 ^ 4 - 1) = x mod 2 ^ 4"
    by (rule and_pow2_mask)
  then have "x AND 15 = x mod 16"
    by simp
  then show ?thesis
    by simp
qed

lemma and_le_right: "(x::nat) AND y \<le> y"
  by (metis AND_upper2 of_nat_0_le_iff of_nat_and_eq of_nat_le_iff)

text \<open>A lookup that returns a value has found its key in a slot.\<close>

lemma get_loop_Some_aux:
  assumes "get_loop ks vs k msk i = Some r"
  shows "r \<noteq> None \<longrightarrow> (\<exists>j. (j = i \<or> j \<le> msk) \<and> ks ! j = Str k)"
  using assms
proof (induction rule: get_loop.raw_induct [rotated 1, consumes 1, case_names step])
  case (step f ks vs k msk i r)
  show ?case
  proof (cases "ks ! i = Str k")
    case True
    then show ?thesis by blast
  next
    case False
    show ?thesis
    proof
      assume r: "r \<noteq> None"
      have nn: "ks ! i \<noteq> NULL"
      proof
        assume "ks ! i = NULL"
        with step(2) have "Some None = Some r" by simp
        with r show False by simp
      qed
      from step(2) nn False have rec: "f ks vs k msk ((i + 1) AND msk) = Some r"
        by simp
      have "r \<noteq> None \<longrightarrow> (\<exists>j. (j = (i + 1) AND msk \<or> j \<le> msk) \<and> ks ! j = Str k)"
        by (rule step(1) [OF rec])
      with r obtain j where j: "j = (i + 1) AND msk \<or> j \<le> msk" "ks ! j = Str k"
        by blast
      have "(i + 1) AND msk \<le> msk"
        by (rule and_le_right)
      with j(1) have "j \<le> msk" by (elim disjE) simp_all
      with j(2) show "\<exists>j. (j = i \<or> j \<le> msk) \<and> ks ! j = Str k"
        by blast
    qed
  qed
qed

lemma get_loop_Some:
  "get_loop ks vs k msk i = Some (Some v) \<Longrightarrow> \<exists>j. (j = i \<or> j \<le> msk) \<and> ks ! j = Str k"
  using get_loop_Some_aux [of ks vs k msk i "Some v"] by simp

section \<open>The table at the inputs where it leaves its specification\<close>

text \<open>
  C1 (keys within one table are unique; \<open>map_put\<close> of a bound key overwrites its slot).
  \<open>map_put\<close> stops at the first slot that is null or a tombstone, without looking for
  the key behind it. After \<open>put a\<close>, \<open>put q\<close>, \<open>remove a\<close>, \<open>put q\<close>, where \<open>a\<close> and
  \<open>q\<close> start probing at slot 12, the key \<open>q\<close> is in slot 12 (the tombstone of \<open>a\<close>,
  taken again) and still in slot 13.
\<close>

theorem put_after_tombstone_duplicates_key:
  "\<exists>m ks. apply_ops dup_ops make_map = Some m \<and> key m = Some ks \<and>
     ks ! 12 = Str ''q'' \<and> ks ! 13 = Str ''q''"
  by (simp add: dup_ops_def map_eval)

lemma dup_table:
  "apply_ops dup_ops make_map =
     Some \<lparr>parent = None,
           key = Some ((replicate 16 NULL)[12 := Str ''a'', 13 := Str ''q'', 12 := Str ''q'']),
           val = (replicate 16 None)[12 := Some 1, 13 := Some 2, 12 := Some 3],
           size_m = 16, nelem = 2, nused = 2\<rparr>"
  by (simp add: dup_ops_def map_eval)

text \<open>
  C3 (\<open>map_len\<close> is the number of keys that a lookup in the table finds). After the same
  four calls \<open>map_len\<close> is 2, and \<open>q\<close> is the only key for which the lookup returns a
  value.
\<close>

theorem len_counts_duplicate_slots:
  "\<exists>m. apply_ops dup_ops make_map = Some m \<and> map_len m = 2 \<and>
     {k. \<exists>v. map_get_nostack m k = Some (Some v)} = {''q''}"
proof -
  let ?ks = "(replicate 16 NULL)[12 := Str ''a'', 13 := Str ''q'', 12 := Str ''q'']"
  let ?vs = "(replicate 16 (None::nat option))[12 := Some 1, 13 := Some 2, 12 := Some 3]"
  let ?m = "\<lparr>parent = None, key = Some ?ks, val = ?vs, size_m = 16, nelem = 2, nused = 2\<rparr>"
  have "k = ''q''" if "map_get_nostack ?m k = Some (Some v)" for k v
  proof -
    from that have "get_loop ?ks ?vs k 15 (unat (hash k) AND 15) = Some (Some v)"
      by (simp add: map_get_nostack_def)
    from get_loop_Some [OF this] obtain j where j: "j \<le> 15" "?ks ! j = Str k"
      using and_15_le by auto
    then show ?thesis
      by (simp add: nth_list_update split: if_splits)
  qed
  moreover have "map_get_nostack ?m ''q'' = Some (Some 3)"
    by (simp add: map_eval)
  ultimately have "{k. \<exists>v. map_get_nostack ?m k = Some (Some v)} = {''q''}"
    by auto
  then show ?thesis
    by (simp add: dup_table map_len_def)
qed

text \<open>
  C4 (a pair put and never removed is what \<open>map_get\<close> returns, also after rehashes caused
  by other insertions). \<open>p\<close> is put with 2, then, after \<open>P\<close> was removed from the slot
  before it, with 3, and never removed. The two slots of \<open>p\<close> are slot 15 (value 3) and,
  after the wrap-around, slot 0 (value 2). \<open>map_get\<close> returns 3 until the fifteenth call
  rehashes: the rehash scans from slot 0, places the old pair first, and \<open>map_get\<close>
  returns 2.
\<close>

theorem rehash_returns_stale_value:
  "\<exists>m1 m2. apply_ops (take 14 stale_ops) make_map = Some m1 \<and>
     map_get (\<lambda>a. if a = 0 then Some m1 else None) 0 ''p'' = Some (Some 3) \<and>
     apply_ops (drop 14 stale_ops) m1 = Some m2 \<and>
     map_get (\<lambda>a. if a = 0 then Some m2 else None) 0 ''p'' = Some (Some 2)"
  by (simp add: stale_ops_def map_eval)

text \<open>
  C5 (a key bound in a parent \<open>A\<close> and its child \<open>B\<close>: \<open>map_get\<close> on \<open>B\<close> returns the
  value of \<open>B\<close>, and the iteration of \<open>B\<close> yields the key once, with the value of \<open>B\<close>).
  With the table \<open>B\<close> built by the four calls of C1 and \<open>A\<close> binding \<open>q\<close> to 7,
  \<open>map_get\<close> returns 3, the value of \<open>B\<close>, and the binding of \<open>A\<close> is not reported; but
  the iteration yields \<open>q\<close> twice, the second time with the value 2 that was overwritten.
\<close>

theorem iteration_yields_key_twice:
  "apply_ops [Put ''q'' (Some 7)] make_map = Some table_A \<and>
   apply_ops dup_ops (make_map_parent 0) = Some table_B \<and>
   map_get store_AB 1 ''q'' = Some (Some 3) \<and>
   iterate store_AB (map_iter 1) = Some [(''q'', Some 3), (''q'', Some 2)]"
  by (simp add: store_AB_def table_A_def table_B_def dup_ops_def map_eval iter_eval)

section \<open>The emitted text\<close>

text \<open>
  C9 (directives and labels, the label \<open>end:\<close> among them, are not indented). The text
  emitted for \<open>int f() { int a = 1; int b = 2; return a + b; }\<close>: \<open>compile\<close> writes the
  label \<open>end:\<close> with \<open>write\<close>, which indents, where it writes the label of the function
  with \<open>write_noindent\<close>.
\<close>

theorem end_label_is_indented:
  "\<exists>st. codegen (\<lambda>a. (None, 0, False)) True fn_ab cg_init = Inr st \<and>
     out st =
       [''.text'', ''.globl f'', ''f:'', ''    push %rbp'', ''    mov %rsp, %rbp'',
        ''    sub $40, %rsp'', ''    movq $1, -8(%rbp)'', ''    movq $2, -16(%rbp)'',
        ''    movq -8(%rbp), %rdi'', ''    movq -16(%rbp), %rsi'', ''    movq %rdi, %rdx'',
        ''    addq %rsi, %rdx'', ''    movq %rdx, %rax'', ''    jmp end'', ''    end:'',
        ''    add $40, %rsp'', ''    popq %rbp'', ''    ret'']"
  by (simp add: fn_ab_def map_eval cg_eval)

section \<open>Facts about the register allocator\<close>

text \<open>\<open>move_to_head\<close> rotates the slots up to \<open>i\<close>: slot \<open>i\<close> comes first.\<close>

lemma move_loop_eq:
  "i < length r \<Longrightarrow> move_loop r i = take 1 r @ take i r @ drop (Suc i) r"
proof (induction i arbitrary: r)
  case 0
  then show ?case
    by (cases r) (simp_all add: move_loop.simps)
next
  case (Suc i)
  let ?r = "r[Suc i := r ! i]"
  have len: "i < length ?r"
    using Suc.prems by simp
  have "move_loop r (Suc i) = move_loop ?r i"
    by (subst move_loop.simps) simp
  also have "\<dots> = take 1 ?r @ take i ?r @ drop (Suc i) ?r"
    by (rule Suc.IH [OF len])
  also have "take 1 ?r = take 1 r"
    by simp
  also have "take i ?r = take i r"
    by simp
  also have "drop (Suc i) ?r = r ! i # drop (Suc (Suc i)) r"
    using Suc.prems by (simp add: drop_update_swap flip: Cons_nth_drop_Suc)
  also have "take i r @ r ! i # drop (Suc (Suc i)) r = take (Suc i) r @ drop (Suc (Suc i)) r"
    using Suc.prems by (simp add: take_Suc_conv_app_nth)
  finally show ?case .
qed

lemma move_to_head_eq:
  "i < length r \<Longrightarrow> move_to_head r i = r ! i # take i r @ drop (Suc i) r"
  by (cases r) (simp_all add: move_to_head_def move_loop_eq)

lemma cached_loop_miss:
  "(\<forall>k. i \<le> k \<and> k < NUMREGS \<longrightarrow> v_r (r ! k) \<noteq> Some v) \<Longrightarrow> cached_loop v r i = None"
proof (induction v r i rule: cached_loop.induct)
  case (1 v r i)
  show ?case
  proof (cases "i < NUMREGS")
    case True
    with 1 show ?thesis
      by (subst cached_loop.simps) simp
  next
    case False
    then show ?thesis
      by (subst cached_loop.simps) simp
  qed
qed

lemma cached_loop_hit:
  "i \<le> j \<Longrightarrow> j < NUMREGS \<Longrightarrow> v_r (r ! j) = Some v \<Longrightarrow>
   (\<forall>k. i \<le> k \<and> k < j \<longrightarrow> v_r (r ! k) \<noteq> Some v) \<Longrightarrow>
   cached_loop v r i = Some (reg_r (move_to_head r j ! 0), move_to_head r j)"
proof (induction v r i rule: cached_loop.induct)
  case (1 v r i)
  show ?case
  proof (cases "i = j")
    case True
    with 1(3,4) show ?thesis
      by (subst cached_loop.simps) (simp add: Let_def)
  next
    case False
    with 1(2) have lt: "i < j" by simp
    with 1(5) have ne: "v_r (r ! i) \<noteq> Some v" by simp
    from lt 1(3) have iN: "i < NUMREGS" by simp
    have "cached_loop v r (i + 1) = Some (reg_r (move_to_head r j ! 0), move_to_head r j)"
      using 1(1) [OF iN ne] lt 1(3,4,5) by simp
    with iN ne show ?thesis
      by (subst cached_loop.simps) simp
  qed
qed

lemma empty_loop_miss:
  "(\<forall>k. i \<le> k \<and> k < NUMREGS \<longrightarrow> v_r (r ! k) \<noteq> None) \<Longrightarrow> empty_loop v r i = None"
proof (induction v r i rule: empty_loop.induct)
  case (1 v r i)
  show ?case
  proof (cases "i < NUMREGS")
    case True
    with 1 show ?thesis
      by (subst empty_loop.simps) simp
  next
    case False
    then show ?thesis
      by (subst empty_loop.simps) simp
  qed
qed

lemma empty_loop_hit:
  "i \<le> j \<Longrightarrow> j < NUMREGS \<Longrightarrow> v_r (r ! j) = None \<Longrightarrow>
   (\<forall>k. i \<le> k \<and> k < j \<longrightarrow> v_r (r ! k) \<noteq> None) \<Longrightarrow>
   empty_loop v r i =
     Some (regs ! j, move_to_head (r[j := \<lparr>v_r = Some v, reg_r = regs ! j\<rparr>]) j)"
proof (induction v r i rule: empty_loop.induct)
  case (1 v r i)
  show ?case
  proof (cases "i = j")
    case True
    with 1(3,4) show ?thesis
      by (subst empty_loop.simps) simp
  next
    case False
    with 1(2) have lt: "i < j" by simp
    with 1(5) have ne: "v_r (r ! i) \<noteq> None" by simp
    from lt 1(3) have iN: "i < NUMREGS" by simp
    have "empty_loop v r (i + 1) =
        Some (regs ! j, move_to_head (r[j := \<lparr>v_r = Some v, reg_r = regs ! j\<rparr>]) j)"
      using 1(1) [OF iN ne] lt 1(3,4,5) by simp
    with iN ne show ?thesis
      by (subst empty_loop.simps) simp
  qed
qed

lemma slots_are_nth:
  assumes "slots_are r xs" "k < NUMREGS"
  shows "v_r (r ! k) = (if k < length xs then Some (xs ! k) else None)"
proof -
  from assms have kl: "k < length r"
    by (simp add: slots_are_def)
  have "v_r (r ! k) = map v_r r ! k"
    by (rule nth_map [OF kl, symmetric])
  also have "\<dots> = (map Some xs @ replicate (NUMREGS - length xs) None) ! k"
    using assms by (simp add: slots_are_def)
  also have "\<dots> = (if k < length xs then Some (xs ! k) else None)"
    using assms by (simp add: nth_append slots_are_def)
  finally show ?thesis .
qed

lemma map_move_to_head:
  "i < length r \<Longrightarrow>
   map f (move_to_head r i) = map f r ! i # take i (map f r) @ drop (Suc i) (map f r)"
  by (simp add: move_to_head_eq take_map drop_map)

lemma remove1_nth:
  "distinct xs \<Longrightarrow> j < length xs \<Longrightarrow> remove1 (xs ! j) xs = take j xs @ drop (Suc j) xs"
proof (induction xs arbitrary: j)
  case Nil
  then show ?case by simp
next
  case (Cons x xs)
  show ?case
  proof (cases j)
    case 0
    then show ?thesis by simp
  next
    case (Suc j')
    with Cons.prems have "xs ! j' \<noteq> x"
      by auto
    with Cons Suc show ?thesis
      by simp
  qed
qed

lemma regname_hit:
  assumes inv: "slots_are (reg2var st) xs" and v: "v \<in> set xs"
  shows "\<exists>reg r'. regname v st = Inr (reg, st\<lparr>reg2var := r'\<rparr>) \<and> slots_are r' (v # remove1 v xs)"
proof -
  let ?r = "reg2var st"
  from v obtain j where j: "j < length xs" "xs ! j = v"
    by (auto simp: in_set_conv_nth)
  from inv have len: "length ?r = NUMREGS" and dist: "distinct xs" and le: "length xs \<le> NUMREGS"
    and mp: "map v_r ?r = map Some xs @ replicate (NUMREGS - length xs) None"
    by (simp_all add: slots_are_def)
  from j le have jN: "j < NUMREGS" by simp
  have at_j: "v_r (?r ! j) = Some v"
    using slots_are_nth [OF inv jN] j by simp
  have before: "\<forall>k. 0 \<le> k \<and> k < j \<longrightarrow> v_r (?r ! k) \<noteq> Some v"
  proof (intro allI impI)
    fix k assume k: "0 \<le> k \<and> k < j"
    with j jN have "v_r (?r ! k) = Some (xs ! k)"
      using slots_are_nth [OF inv, of k] by simp
    moreover have "xs ! k \<noteq> xs ! j"
      using nth_eq_iff_index_eq [OF dist, of k j] k j by simp
    ultimately show "v_r (?r ! k) \<noteq> Some v"
      using j by simp
  qed
  have hit: "cached_loop v ?r 0 = Some (reg_r (move_to_head ?r j ! 0), move_to_head ?r j)"
    by (rule cached_loop_hit [OF _ jN at_j before]) simp
  have jr: "j < length ?r"
    using jN len by simp
  have "map v_r (move_to_head ?r j) =
      map v_r ?r ! j # take j (map v_r ?r) @ drop (Suc j) (map v_r ?r)"
    by (rule map_move_to_head [OF jr])
  also have "\<dots> = Some v # map Some (take j xs) @ map Some (drop (Suc j) xs)
      @ replicate (NUMREGS - length xs) None"
    using j by (simp add: mp nth_append take_map drop_map)
  also have "\<dots> = map Some (v # remove1 v xs) @ replicate (NUMREGS - length xs) None"
    using remove1_nth [OF dist j(1)] j(2) by simp
  finally have mp': "map v_r (move_to_head ?r j) =
      map Some (v # remove1 v xs) @ replicate (NUMREGS - length xs) None" .
  have len_rm: "length (v # remove1 v xs) = length xs"
    using v by (simp add: length_remove1) (cases xs, auto)
  have "slots_are (move_to_head ?r j) (v # remove1 v xs)"
    unfolding slots_are_def
    using mp' len_rm dist le len jr by (simp add: move_to_head_eq)
  with hit show ?thesis
    by (auto simp: regname_def)
qed

lemma regname_fill:
  assumes inv: "slots_are (reg2var st) xs" and v: "v \<notin> set xs" and room: "length xs < NUMREGS"
  shows "\<exists>reg r'. regname v st = Inr (reg, st\<lparr>reg2var := r'\<rparr>) \<and> slots_are r' (v # xs)"
proof -
  let ?r = "reg2var st"
  let ?j = "length xs"
  let ?e = "\<lparr>v_r = Some v, reg_r = regs ! ?j\<rparr>"
  from inv have len: "length ?r = NUMREGS" and dist: "distinct xs"
    and mp: "map v_r ?r = map Some xs @ replicate (NUMREGS - length xs) None"
    by (simp_all add: slots_are_def)
  have miss: "cached_loop v ?r 0 = None"
  proof (rule cached_loop_miss, intro allI impI)
    fix k assume "0 \<le> k \<and> k < NUMREGS"
    then show "v_r (?r ! k) \<noteq> Some v"
      using slots_are_nth [OF inv, of k] v by auto
  qed
  have at_j: "v_r (?r ! ?j) = None"
    using slots_are_nth [OF inv room] by simp
  have before: "\<forall>k. 0 \<le> k \<and> k < ?j \<longrightarrow> v_r (?r ! k) \<noteq> None"
  proof (intro allI impI)
    fix k assume "0 \<le> k \<and> k < ?j"
    then show "v_r (?r ! k) \<noteq> None"
      using slots_are_nth [OF inv, of k] room by simp
  qed
  have hit: "empty_loop v ?r 0 = Some (regs ! ?j, move_to_head (?r[?j := ?e]) ?j)"
    by (rule empty_loop_hit [OF _ room at_j before]) simp
  have jr: "?j < length (?r[?j := ?e])"
    using room len by simp
  have "map v_r (move_to_head (?r[?j := ?e]) ?j) =
      map v_r (?r[?j := ?e]) ! ?j # take ?j (map v_r (?r[?j := ?e]))
        @ drop (Suc ?j) (map v_r (?r[?j := ?e]))"
    by (rule map_move_to_head [OF jr])
  also have "map v_r (?r[?j := ?e]) = (map v_r ?r)[?j := Some v]"
    by (simp add: map_update)
  also have "\<dots> = map Some xs @ Some v # replicate (NUMREGS - ?j - 1) None"
    using room by (simp add: mp list_update_append) (cases "NUMREGS - length xs", simp_all)
  finally have mp': "map v_r (move_to_head (?r[?j := ?e]) ?j) =
      map Some (v # xs) @ replicate (NUMREGS - length (v # xs)) None"
    by (simp add: nth_append)
  have "slots_are (move_to_head (?r[?j := ?e]) ?j) (v # xs)"
    unfolding slots_are_def
    using mp' dist v room len jr by (simp add: move_to_head_eq)
  with miss hit show ?thesis
    by (auto simp: regname_def)
qed

text \<open>What \<open>regname\<close> does when every slot holds a value other than \<open>v\<close>.\<close>

lemma regname_full:
  assumes occ: "\<forall>k<NUMREGS. v_r (reg2var st ! k) \<noteq> None \<and> v_r (reg2var st ! k) \<noteq> Some v"
    and last: "v_r (reg2var st ! (NUMREGS - 1)) = Some lv"
    and dl: "deref st lv = Some (VAR li lp lo ls)"
    and dv: "deref st v = Some (VAR vi vp vo vs)"
  shows "regname v st =
     Inr (reg_r (reg2var st ! (NUMREGS - 1)),
          st\<lparr>out := out st
                 @ [''    movq %'' @ reg_r (reg2var st ! (NUMREGS - 1)) @ '', '' @ show_int lo
                      @ ''(%rbp)  # spill'']
                 @ (if vs then [''    movq '' @ show_int vo @ ''(%rbp), %''
                                  @ reg_r (reg2var st ! (NUMREGS - 1)) @ ''  # load'']
                    else []),
              heap := (heap st)[lv := VAR li lp lo True],
              reg2var := move_to_head
                ((reg2var st)[NUMREGS - 1 :=
                   \<lparr>v_r = Some v, reg_r = reg_r (reg2var st ! (NUMREGS - 1))\<rparr>])
                (NUMREGS - 1)\<rparr>)"
proof -
  have c: "cached_loop v (reg2var st) 0 = None"
    by (rule cached_loop_miss) (use occ in simp)
  have e: "empty_loop v (reg2var st) 0 = None"
    by (rule empty_loop_miss) (use occ in simp)
  have ne: "lv \<noteq> v"
    using occ last by (auto simp: NUMREGS_def)
  from dl have lvl: "lv < length (heap st)" and hl: "heap st ! lv = VAR li lp lo ls"
    by (simp_all add: deref_def split: if_splits)
  from dv have vl: "v < length (heap st)" and hv: "heap st ! v = VAR vi vp vo vs"
    by (simp_all add: deref_def split: if_splits)
  show ?thesis
    using last ne lvl hl vl hv
    by (simp add: regname_def c e spill_def Let_def deref_def write_ind_def set_spilled_def)
qed

lemma last_remove1:
  "xs \<noteq> [] \<Longrightarrow> x \<noteq> last xs \<Longrightarrow> remove1 x xs \<noteq> [] \<and> last (remove1 x xs) = last xs"
  by (induction xs) (auto split: if_splits)

lemma regname_spill_slots:
  assumes inv: "slots_are (reg2var st) xs" and full: "length xs = NUMREGS" and v: "v \<notin> set xs"
    and dl: "deref st (last xs) = Some (VAR li lp lo ls)"
    and dv: "deref st v = Some (VAR vi vp vo vs)"
  shows "\<exists>reg st'. regname v st = Inr (reg, st') \<and>
     out st' = out st @ [''    movq %'' @ reg @ '', '' @ show_int lo @ ''(%rbp)  # spill'']
        @ (if vs then [''    movq '' @ show_int vo @ ''(%rbp), %'' @ reg @ ''  # load''] else []) \<and>
     heap st' = (heap st)[last xs := VAR li lp lo True] \<and>
     slots_are (reg2var st') (v # butlast xs)"
proof -
  let ?r = "reg2var st"
  let ?n = "NUMREGS - 1"
  let ?e = "\<lparr>v_r = Some v, reg_r = reg_r (?r ! ?n)\<rparr>"
  from inv full have len: "length ?r = NUMREGS" and dist: "distinct xs"
    and mp: "map v_r ?r = map Some xs"
    by (simp_all add: slots_are_def)
  have ne: "xs \<noteq> []"
    using full by (auto simp: NUMREGS_def)
  have occ: "\<forall>k<NUMREGS. v_r (?r ! k) \<noteq> None \<and> v_r (?r ! k) \<noteq> Some v"
  proof (intro allI impI)
    fix k assume k: "k < NUMREGS"
    then have "v_r (?r ! k) = Some (xs ! k)"
      using slots_are_nth [OF inv k] full by simp
    moreover have "xs ! k \<in> set xs"
      using k full by simp
    ultimately show "v_r (?r ! k) \<noteq> None \<and> v_r (?r ! k) \<noteq> Some v"
      using v by auto
  qed
  have last: "v_r (?r ! ?n) = Some (last xs)"
    using slots_are_nth [OF inv, of ?n] full ne by (simp add: last_conv_nth NUMREGS_def)
  note full_step = regname_full [OF occ last dl dv]
  have nl: "?n < length (?r[?n := ?e])"
    using len by (simp add: NUMREGS_def)
  have "map v_r (move_to_head (?r[?n := ?e]) ?n) =
      map v_r (?r[?n := ?e]) ! ?n # take ?n (map v_r (?r[?n := ?e]))
        @ drop (Suc ?n) (map v_r (?r[?n := ?e]))"
    by (rule map_move_to_head [OF nl])
  also have "map v_r (?r[?n := ?e]) = (map Some xs)[?n := Some v]"
    by (simp add: map_update mp)
  also have "(map Some xs)[?n := Some v] ! ?n # take ?n ((map Some xs)[?n := Some v])
        @ drop (Suc ?n) ((map Some xs)[?n := Some v]) = map Some (v # butlast xs)"
    using full by (simp add: butlast_conv_take take_map NUMREGS_def)
  finally have mp': "map v_r (move_to_head (?r[?n := ?e]) ?n) = map Some (v # butlast xs)" .
  have "distinct (v # butlast xs)"
    using dist v by (auto simp: distinct_butlast dest: in_set_butlastD)
  moreover have "length (v # butlast xs) = NUMREGS"
    using full ne by (simp add: NUMREGS_def)
  ultimately have "slots_are (move_to_head (?r[?n := ?e]) ?n) (v # butlast xs)"
    unfolding slots_are_def using mp' len nl by (simp add: move_to_head_eq)
  with full_step show ?thesis
    by simp
qed

lemma resolve_all_fill:
  "slots_are (reg2var st) xs \<Longrightarrow> xs \<noteq> [] \<Longrightarrow> last xs \<notin> set s \<Longrightarrow>
   card (set xs \<union> set s) \<le> NUMREGS \<Longrightarrow>
   \<exists>st' xs'. resolve_all s st = Inr st' \<and> slots_are (reg2var st') xs' \<and>
     set xs' = set xs \<union> set s \<and> xs' \<noteq> [] \<and> last xs' = last xs \<and>
     out st' = out st \<and> heap st' = heap st"
proof (induction s arbitrary: st xs)
  case Nil
  then show ?case by auto
next
  case (Cons v s)
  from Cons.prems(1) have dist: "distinct xs"
    by (simp add: slots_are_def)
  from Cons.prems(3) have vl: "v \<noteq> last xs" and ls: "last xs \<notin> set s"
    by auto
  have "\<exists>reg r' xs1. regname v st = Inr (reg, st\<lparr>reg2var := r'\<rparr>) \<and> slots_are r' xs1 \<and>
      set xs1 = insert v (set xs) \<and> xs1 \<noteq> [] \<and> last xs1 = last xs"
  proof (cases "v \<in> set xs")
    case True
    from regname_hit [OF Cons.prems(1) True] obtain reg r' where
      r: "regname v st = Inr (reg, st\<lparr>reg2var := r'\<rparr>)" "slots_are r' (v # remove1 v xs)"
      by blast
    have "set (v # remove1 v xs) = insert v (set xs)"
      using True dist by auto
    moreover have "last (v # remove1 v xs) = last xs"
      using last_remove1 [OF Cons.prems(2) vl] by simp
    ultimately show ?thesis
      using r by blast
  next
    case False
    have "card (insert v (set xs)) \<le> card (set xs \<union> set (v # s))"
      by (rule card_mono) auto
    with False Cons.prems(4) dist have "length xs < NUMREGS"
      by (simp add: distinct_card)
    from regname_fill [OF Cons.prems(1) False this] obtain reg r' where
      r: "regname v st = Inr (reg, st\<lparr>reg2var := r'\<rparr>)" "slots_are r' (v # xs)"
      by blast
    moreover have "last (v # xs) = last xs"
      using Cons.prems(2) by simp
    ultimately show ?thesis
      by (intro exI [of _ reg] exI [of _ r'] exI [of _ "v # xs"]) simp
  qed
  then obtain reg r' xs1 where
    r: "regname v st = Inr (reg, st\<lparr>reg2var := r'\<rparr>)" and inv1: "slots_are r' xs1"
    and set1: "set xs1 = insert v (set xs)" and ne1: "xs1 \<noteq> []" and last1: "last xs1 = last xs"
    by blast
  let ?st1 = "st\<lparr>reg2var := r'\<rparr>"
  have a: "slots_are (reg2var ?st1) xs1"
    using inv1 by simp
  have b: "last xs1 \<notin> set s"
    using last1 ls by simp
  have c: "card (set xs1 \<union> set s) \<le> NUMREGS"
    using Cons.prems(4) set1 by (simp add: insert_commute)
  from Cons.IH [OF a ne1 b c] obtain st' xs' where
    "resolve_all s ?st1 = Inr st'" "slots_are (reg2var st') xs'"
    "set xs' = set xs1 \<union> set s" "xs' \<noteq> []" "last xs' = last xs1"
    "out st' = out ?st1" "heap st' = heap ?st1"
    by blast
  then show ?case
    using r set1 last1 by (intro exI [of _ st'] exI [of _ xs']) auto
qed

lemma seven_vars_eq:
  "seven_vars (p, f, b) =
     \<lparr>mems = [], lvars = EMPTY_MAP, vars = [0, 1, 2, 3, 4, 5, 6], insts = [], offset = 56,
      out = [], reg2var = replicate NUMREGS \<lparr>v_r = None, reg_r = []\<rparr>,
      heap = [VAR 1 p (- 8) b, VAR 2 p (- 16) b, VAR 3 p (- 24) b, VAR 4 p (- 32) b,
              VAR 5 p (- 40) b, VAR 6 p (- 48) b, VAR 7 p (- 56) b],
      next_id = 8\<rparr>"
  by (simp add: seven_vars_def numeral_eq_Suc make_var_def cg_init_def regalloc_def set_off_def)

lemma set_butlast_distinct:
  "distinct xs \<Longrightarrow> xs \<noteq> [] \<Longrightarrow> set (butlast xs) = set xs - {last xs}"
proof -
  assume d: "distinct xs" and ne: "xs \<noteq> []"
  then have "xs = butlast xs @ [last xs]"
    by simp
  then have "distinct (butlast xs @ [last xs])" "set xs = set (butlast xs @ [last xs])"
    using d by simp_all
  then show ?thesis
    by auto
qed

lemma slots_are_set:
  "slots_are r xs \<Longrightarrow> length xs = NUMREGS \<Longrightarrow> set (map v_r r) = Some ` set xs"
  by (simp add: slots_are_def)

lemma deref_heap: "heap st' = heap st \<Longrightarrow> deref st' p = deref st p"
  by (simp add: deref_def)

lemma first_resolved_is_evicted:
  assumes init: "reg2var st = replicate NUMREGS \<lparr>v_r = None, reg_r = []\<rparr>"
    and dist: "distinct [v1, v2, v3, v4, v5, v6, v7]"
    and d1: "deref st v1 = Some (VAR i1 p1 o1 s1)"
    and d7: "deref st v7 = Some (VAR i7 p7 o7 s7)"
    and s: "set s = {v2, v3, v4, v5, v6}"
  shows "\<exists>st1 reg st2.
     resolve_all (v1 # s) st = Inr st1 \<and> out st1 = out st \<and> heap st1 = heap st \<and>
     set (map v_r (reg2var st1)) = Some ` {v1, v2, v3, v4, v5, v6} \<and>
     regname v7 st1 = Inr (reg, st2) \<and>
     out st2 = out st @ [''    movq %'' @ reg @ '', '' @ show_int o1 @ ''(%rbp)  # spill'']
        @ (if s7 then [''    movq '' @ show_int o7 @ ''(%rbp), %'' @ reg @ ''  # load''] else []) \<and>
     heap st2 = (heap st)[v1 := VAR i1 p1 o1 True] \<and>
     set (map v_r (reg2var st2)) = Some ` {v2, v3, v4, v5, v6, v7}"
proof -
  have inv0: "slots_are (reg2var st) []"
    by (simp add: slots_are_def init)
  from regname_fill [OF inv0, of v1] obtain reg0 r0 where
    first: "regname v1 st = Inr (reg0, st\<lparr>reg2var := r0\<rparr>)" and inv1: "slots_are r0 [v1]"
    by (auto simp: NUMREGS_def)
  let ?st0 = "st\<lparr>reg2var := r0\<rparr>"
  have a: "slots_are (reg2var ?st0) [v1]"
    using inv1 by simp
  have b: "last [v1] \<notin> set s"
    using dist s by auto
  have "card (set [v1] \<union> set s) = card {v1, v2, v3, v4, v5, v6}"
    using s by (simp add: insert_commute)
  also have "\<dots> = 6"
    using dist by simp
  finally have c: "card (set [v1] \<union> set s) \<le> NUMREGS"
    by (simp add: NUMREGS_def)
  from resolve_all_fill [OF a _ b c] obtain st1 xs where
    run: "resolve_all s ?st0 = Inr st1" and inv: "slots_are (reg2var st1) xs"
    and set_xs: "set xs = set [v1] \<union> set s" and ne: "xs \<noteq> []" and last_xs: "last xs = last [v1]"
    and out1: "out st1 = out ?st0" and heap1: "heap st1 = heap ?st0"
    by blast
  have set_xs': "set xs = {v1, v2, v3, v4, v5, v6}"
    using set_xs s by auto
  from inv have dxs: "distinct xs"
    by (simp add: slots_are_def)
  have "length xs = card {v1, v2, v3, v4, v5, v6}"
    using distinct_card [OF dxs] set_xs' by simp
  also have "\<dots> = 6"
    using dist by simp
  finally have full: "length xs = NUMREGS"
    by (simp add: NUMREGS_def)
  have v7: "v7 \<notin> set xs"
    using set_xs' dist by auto
  have h1: "heap st1 = heap st"
    using heap1 by simp
  have dl: "deref st1 (last xs) = Some (VAR i1 p1 o1 s1)"
    using d1 last_xs by (simp add: deref_heap [OF h1])
  have dv: "deref st1 v7 = Some (VAR i7 p7 o7 s7)"
    using d7 by (simp add: deref_heap [OF h1])
  from regname_spill_slots [OF inv full v7 dl dv] obtain reg st2 where
    sp: "regname v7 st1 = Inr (reg, st2)"
    and out2: "out st2 = out st1 @ [''    movq %'' @ reg @ '', '' @ show_int o1 @ ''(%rbp)  # spill'']
        @ (if s7 then [''    movq '' @ show_int o7 @ ''(%rbp), %'' @ reg @ ''  # load''] else [])"
    and heap2: "heap st2 = (heap st1)[last xs := VAR i1 p1 o1 True]"
    and inv2: "slots_are (reg2var st2) (v7 # butlast xs)"
    by blast
  have "set (butlast xs) = {v2, v3, v4, v5, v6}"
    using set_butlast_distinct [OF dxs ne] set_xs' last_xs dist by auto
  then have set2: "set (v7 # butlast xs) = {v2, v3, v4, v5, v6, v7}"
    by auto
  have len2: "length (v7 # butlast xs) = NUMREGS"
    using full ne by (simp add: NUMREGS_def)
  have "resolve_all (v1 # s) st = Inr st1"
    using first run by simp
  moreover have "set (map v_r (reg2var st1)) = Some ` {v1, v2, v3, v4, v5, v6}"
    using slots_are_set [OF inv full] by (simp only: set_xs')
  moreover have "set (map v_r (reg2var st2)) = Some ` {v2, v3, v4, v5, v6, v7}"
    using slots_are_set [OF inv2 len2] by (simp only: set2)
  ultimately show ?thesis
    using out1 heap1 sp out2 heap2 last_xs by auto
qed

section \<open>The register allocator: eviction\<close>

text \<open>
  C7 (when all six slots are occupied and a value not in a slot is resolved, the evicted
  value is spilled to its own offset and marked, and the incoming value is loaded if and
  only if it was spilled before; a fresh value gets no load). \<open>regname_full\<close> above is
  what \<open>regname\<close> does there: the load is written when the flag \<open>spilled\<close> of the
  incoming object is set. \<open>make_var\<close> does not initialise this flag. Seven values made by
  \<open>make_var\<close> in memory where the flag reads as set, resolved in their order: the seventh,
  which was never in a slot and never spilled, is loaded from its stack offset.
\<close>

theorem fresh_value_is_loaded:
  "\<exists>st1 reg st2.
     resolve_all [0, 1, 2, 3, 4, 5] (seven_vars (None, 0, True)) = Inr st1 \<and>
     out st1 = [] \<and> heap st1 = heap (seven_vars (None, 0, True)) \<and>
     regname 6 st1 = Inr (reg, st2) \<and>
     out st2 = [''    movq %'' @ reg @ '', -8(%rbp)  # spill'',
                ''    movq -56(%rbp), %'' @ reg @ ''  # load'']"
proof -
  let ?st = "seven_vars (None, 0, True)"
  have a: "reg2var ?st = replicate NUMREGS \<lparr>v_r = None, reg_r = []\<rparr>"
    by (simp add: seven_vars_eq)
  have b: "distinct [0, 1, 2, 3, 4, 5, 6::nat]"
    by simp
  have c: "deref ?st 0 = Some (VAR 1 None (- 8) True)"
    by (simp add: seven_vars_eq deref_def)
  have d: "deref ?st 6 = Some (VAR 7 None (- 56) True)"
    by (simp add: seven_vars_eq deref_def)
  have e: "set [1, 2, 3, 4, 5] = {1, 2, 3, 4, 5::nat}"
    by auto
  have o: "out ?st = []"
    by (simp add: seven_vars_eq)
  have sh: "show_int (- 8) = ''-8''" "show_int (- 56) = ''-56''"
    by (simp_all add: show_int_def show_nat.simps)
  from first_resolved_is_evicted [OF a b c d e] obtain st1 reg st2 where
    r1: "resolve_all [0, 1, 2, 3, 4, 5] ?st = Inr st1" and r2: "out st1 = out ?st"
    and r3: "heap st1 = heap ?st"
    and r4: "regname 6 st1 = Inr (reg, st2)"
    and r5: "out st2 = out ?st @ [''    movq %'' @ reg @ '', '' @ show_int (- 8) @ ''(%rbp)  # spill'']
        @ (if True then [''    movq '' @ show_int (- 56) @ ''(%rbp), %'' @ reg @ ''  # load''] else [])"
    by blast
  have "out st1 = []"
    using r2 o by simp
  moreover have "out st2 = [''    movq %'' @ reg @ '', -8(%rbp)  # spill'',
                ''    movq -56(%rbp), %'' @ reg @ ''  # load'']"
    using r5 by (simp add: o sh)
  ultimately show ?thesis
    using r1 r3 r4 by blast
qed

lemma filter_update_count:
  "i < length xs \<Longrightarrow>
   length (filter P (xs[i := y])) + (if P (xs ! i) then 1 else 0) =
   length (filter P xs) + (if P y then 1 else 0)"
proof (induction xs arbitrary: i)
  case Nil
  then show ?case by simp
next
  case (Cons x xs)
  show ?case
  proof (cases i)
    case 0
    then show ?thesis by simp
  next
    case (Suc i')
    with Cons.prems have "i' < length xs" by simp
    from Cons.IH [OF this] Suc show ?thesis
      by simp
  qed
qed

lemma exists_NULL:
  "length (filter (\<lambda>k. k \<noteq> NULL) ks) < length ks \<Longrightarrow> \<exists>j<length ks. ks ! j = NULL"
proof -
  assume a: "length (filter (\<lambda>k. k \<noteq> NULL) ks) < length ks"
  have "\<exists>x\<in>set ks. \<not> x \<noteq> NULL"
  proof (rule ccontr)
    assume "\<not> (\<exists>x\<in>set ks. \<not> x \<noteq> NULL)"
    then have "filter (\<lambda>k. k \<noteq> NULL) ks = ks"
      by (auto simp: filter_id_conv)
    with a show False by simp
  qed
  then show ?thesis
    by (auto simp: in_set_conv_nth)
qed

lemma step_mod:
  assumes "n = 2 ^ e"
  shows "(i + 1) AND (n - 1) = (i + 1) mod (n::nat)"
  using and_pow2_mask [of "i + 1" e] assms by simp

lemma step_mod_Suc:
  assumes "n = 2 ^ e"
  shows "Suc i AND (n - Suc 0) = Suc i mod (n::nat)"
  using step_mod [OF assms, of i] by simp

lemma start_lt:
  assumes "n = 2 ^ e"
  shows "x AND (n - 1) < (n::nat)"
  using and_pow2_mask [of x e] assms by simp

lemma reach:
  assumes "i < n" "j < n"
  shows "\<exists>d. (i + d) mod n = (j::nat)"
proof
  show "(i + (j + n - i)) mod n = j"
    using assms by simp
qed

lemma rehash_probe_finds_aux:
  assumes n: "n = 2 ^ e"
  shows "i < n \<Longrightarrow> k ! ((i + d) mod n) = NULL \<Longrightarrow>
     \<exists>j<n. rehash_probe k (n - 1) i = Some j \<and> k ! j = NULL"
proof (induction d arbitrary: i)
  case 0
  then show ?case
    by (subst rehash_probe.simps) simp
next
  case (Suc d)
  show ?case
  proof (cases "k ! i = NULL")
    case True
    with Suc.prems(1) show ?thesis
      by (subst rehash_probe.simps) simp
  next
    case False
    let ?i = "(i + 1) mod n"
    have lt: "?i < n"
      using Suc.prems(1) by simp
    have "(?i + d) mod n = (i + Suc d) mod n"
      by (simp add: mod_add_left_eq)
    with Suc.prems(2) have "k ! ((?i + d) mod n) = NULL"
      by simp
    from Suc.IH [OF lt this] obtain j where "j < n" "rehash_probe k (n - 1) ?i = Some j" "k ! j = NULL"
      by blast
    moreover have "rehash_probe k (n - 1) i = rehash_probe k (n - 1) ?i"
      using False by (subst rehash_probe.simps) (simp add: step_mod_Suc [OF n])
    ultimately show ?thesis
      by auto
  qed
qed

lemma rehash_probe_finds:
  assumes "n = 2 ^ e" "i < n" "j < n" "k ! j = NULL"
  shows "\<exists>j'<n. rehash_probe k (n - 1) i = Some j' \<and> k ! j' = NULL"
proof -
  from reach [OF assms(2,3)] obtain d where "(i + d) mod n = j"
    by blast
  with assms(4) have "k ! ((i + d) mod n) = NULL"
    by simp
  from rehash_probe_finds_aux [OF assms(1,2) this] show ?thesis .
qed

lemma is_str_simps [simp]:
  "is_str (Str s)" "\<not> is_str NULL" "\<not> is_str TOMBSTONE"
  by (simp_all add: is_str_def)

lemma rehash_loop_ok:
  assumes n': "n' = 2 ^ e"
  shows "length k = n' \<Longrightarrow> length v = n' \<Longrightarrow> n = length ks \<Longrightarrow> i \<le> n \<Longrightarrow>
     length (filter (\<lambda>x. x \<noteq> NULL) k) + length (filter is_str (drop i ks)) < n' \<Longrightarrow>
     (\<forall>x\<in>set k. x = NULL \<or> is_str x) \<Longrightarrow>
     \<exists>k' v'. rehash_loop ks vs n (n' - 1) i (k, v) = Some (k', v') \<and>
       length k' = n' \<and> length v' = n' \<and> (\<forall>x\<in>set k'. x = NULL \<or> is_str x) \<and>
       length (filter (\<lambda>x. x \<noteq> NULL) k') =
         length (filter (\<lambda>x. x \<noteq> NULL) k) + length (filter is_str (drop i ks))"
proof (induction ks vs n "n' - 1" i "(k, v)" arbitrary: k v rule: rehash_loop.induct)
  case (1 ks vs n i k v)
  show ?case
  proof (cases "i < n")
    case False
    with 1(6,7) have "drop i ks = []" by simp
    with False 1(4,5,9) show ?thesis
      by (subst rehash_loop.simps) simp
  next
    case True
    then have dr: "drop i ks = ks ! i # drop (Suc i) ks"
      using 1(6) by (simp add: Cons_nth_drop_Suc)
    from True have i1: "i + 1 \<le> n" by simp
    show ?thesis
    proof (cases "ks ! i")
      case NULL
      have room: "length (filter (\<lambda>x. x \<noteq> NULL) k) + length (filter is_str (drop (i + 1) ks)) < n'"
        using 1(8) dr NULL by simp
      from 1(1) [OF True NULL 1(4,5,6) i1 room 1(9)] obtain k' v' where
        "rehash_loop ks vs n (n' - 1) (i + 1) (k, v) = Some (k', v')" "length k' = n'"
        "length v' = n'" "\<forall>x\<in>set k'. x = NULL \<or> is_str x"
        "length (filter (\<lambda>x. x \<noteq> NULL) k') =
           length (filter (\<lambda>x. x \<noteq> NULL) k) + length (filter is_str (drop (i + 1) ks))"
        by blast
      then show ?thesis
        using True NULL dr by (subst rehash_loop.simps) simp
    next
      case TOMBSTONE
      have room: "length (filter (\<lambda>x. x \<noteq> NULL) k) + length (filter is_str (drop (i + 1) ks)) < n'"
        using 1(8) dr TOMBSTONE by simp
      from 1(2) [OF True TOMBSTONE 1(4,5,6) i1 room 1(9)] obtain k' v' where
        "rehash_loop ks vs n (n' - 1) (i + 1) (k, v) = Some (k', v')" "length k' = n'"
        "length v' = n'" "\<forall>x\<in>set k'. x = NULL \<or> is_str x"
        "length (filter (\<lambda>x. x \<noteq> NULL) k') =
           length (filter (\<lambda>x. x \<noteq> NULL) k) + length (filter is_str (drop (i + 1) ks))"
        by blast
      then show ?thesis
        using True TOMBSTONE dr by (subst rehash_loop.simps) simp
    next
      case (Str s)
      have cnt: "length (filter (\<lambda>x. x \<noteq> NULL) k) < length k"
        using 1(8) 1(4) by simp
      from exists_NULL [OF cnt] obtain j0 where j0: "j0 < n'" "k ! j0 = NULL"
        using 1(4) by auto
      have st: "unat (hash s) AND (n' - 1) < n'"
        by (rule start_lt [OF n'])
      from rehash_probe_finds [OF n' st j0] obtain j where
        j: "j < n'" "rehash_probe k (n' - 1) (unat (hash s) AND (n' - 1)) = Some j" "k ! j = NULL"
        by blast
      let ?k = "k[j := ks ! i]" and ?v = "v[j := vs ! i]"
      have jl: "j < length k" using j(1) 1(4) by simp
      have c1: "length (filter (\<lambda>x. x \<noteq> NULL) ?k) = length (filter (\<lambda>x. x \<noteq> NULL) k) + 1"
        using filter_update_count [OF jl, of "\<lambda>x. x \<noteq> NULL" "ks ! i"] j(3) Str by simp
      have room: "length (filter (\<lambda>x. x \<noteq> NULL) ?k) + length (filter is_str (drop (i + 1) ks)) < n'"
        using 1(8) dr Str c1 by simp
      have all: "\<forall>x\<in>set ?k. x = NULL \<or> is_str x"
        using 1(9) Str set_update_subset_insert [of k j "ks ! i"] by auto
      have lk: "length ?k = n'" and lv: "length ?v = n'"
        using 1(4,5) by simp_all
      from 1(3) [OF True Str j(2) lk lv 1(6) i1 room all] obtain k' v' where
        "rehash_loop ks vs n (n' - 1) (i + 1) (?k, ?v) = Some (k', v')" "length k' = n'"
        "length v' = n'" "\<forall>x\<in>set k'. x = NULL \<or> is_str x"
        "length (filter (\<lambda>x. x \<noteq> NULL) k') =
           length (filter (\<lambda>x. x \<noteq> NULL) ?k) + length (filter is_str (drop (i + 1) ks))"
        by blast
      then show ?thesis
        using True Str dr j(2) c1 by (subst rehash_loop.simps) simp
    qed
  qed
qed

lemma filter_str_nonnull:
  "\<forall>x\<in>set k. x = NULL \<or> is_str x \<Longrightarrow> filter is_str k = filter (\<lambda>x. x \<noteq> NULL) k"
  by (rule filter_cong) auto

lemma str_le_nonnull:
  "length (filter is_str ks) \<le> length (filter (\<lambda>x. x \<noteq> NULL) ks)"
proof -
  have "filter is_str ks = filter is_str (filter (\<lambda>x. x \<noteq> NULL) ks)"
    by (auto simp: filter_filter intro: filter_cong)
  then show ?thesis
    by (metis length_filter_le)
qed

lemma table_ok_make: "table_ok (do_make_map p INIT_SIZE)"
proof -
  have "\<exists>e. 4 \<le> e \<and> (16::nat) = 2 ^ e"
    by (rule exI [of _ 4]) simp
  then show ?thesis
    by (simp add: table_ok_def do_make_map_def INIT_SIZE_def capacity_def used_slots_def
        live_slots_def is_str_def)
qed

lemma table_ok_empty: "table_ok EMPTY_MAP"
  by (simp add: table_ok_def EMPTY_MAP_def capacity_def used_slots_def live_slots_def)

lemma maybe_rehash_ok:
  assumes ok: "table_ok m"
  shows "\<exists>m' ks. maybe_rehash m = Some m' \<and> table_ok m' \<and> key m' = Some ks \<and>
     10 * nused m' < 7 * size_m m' \<and> parent m' = parent m"
proof (cases "key m")
  case None
  have "\<exists>e. 4 \<le> e \<and> (16::nat) = 2 ^ e"
    by (rule exI [of _ 4]) simp
  then show ?thesis
    using None ok
    by (simp add: maybe_rehash_def table_ok_def INIT_SIZE_def capacity_def used_slots_def
        live_slots_def is_str_def)
next
  case (Some ks)
  from ok Some have sz: "size_m m = length ks" and nu: "nused m = length (filter (\<lambda>x. x \<noteq> NULL) ks)"
    and ne: "nelem m = length (filter is_str ks)" and lf: "10 * nused m < 7 * size_m m + 10"
    and lv: "length (val m) = length ks"
    by (simp_all add: table_ok_def capacity_def used_slots_def live_slots_def)
  from ok Some obtain e where e: "4 \<le> e" "length ks = 2 ^ e"
    by (auto simp: table_ok_def)
  show ?thesis
  proof (cases "10 * nused m < 7 * size_m m")
    case True
    then show ?thesis
      using Some ok by (simp add: maybe_rehash_def)
  next
    case False
    define newsize where "newsize = (if 20 * nelem m < 7 * size_m m then size_m m else size_m m * 2)"
    obtain e' where e': "4 \<le> e'" "newsize = 2 ^ e'"
    proof (cases "20 * nelem m < 7 * size_m m")
      case True
      then show ?thesis
        using that [of e] e sz by (simp add: newsize_def)
    next
      case False
      then show ?thesis
        using that [of "Suc e"] e sz by (simp add: newsize_def)
    qed
    have big: "16 \<le> length ks"
    proof -
      have "(2::nat) ^ 4 \<le> 2 ^ e"
        using e(1) by (intro power_increasing) simp_all
      then show ?thesis
        using e(2) by simp
    qed
    have le: "nelem m \<le> nused m"
      using ne nu str_le_nonnull by simp
    have small: "10 * nelem m < 7 * newsize"
      using le lf sz big by (auto simp: newsize_def)
    then have room: "length (filter (\<lambda>x. x \<noteq> NULL) (replicate newsize NULL))
        + length (filter is_str (drop 0 ks)) < newsize"
      using ne by simp
    have "\<exists>k' v'. rehash_loop ks (val m) (size_m m) (newsize - 1) 0
          (replicate newsize NULL, replicate newsize None) = Some (k', v') \<and>
       length k' = newsize \<and> length v' = newsize \<and> (\<forall>x\<in>set k'. x = NULL \<or> is_str x) \<and>
       length (filter (\<lambda>x. x \<noteq> NULL) k') =
         length (filter (\<lambda>x. x \<noteq> NULL) (replicate newsize NULL))
           + length (filter is_str (drop 0 ks))"
      by (rule rehash_loop_ok [OF e'(2) _ _ sz _ room]) simp_all
    then obtain k' v' where
      run: "rehash_loop ks (val m) (size_m m) (newsize - 1) 0
          (replicate newsize NULL, replicate newsize None) = Some (k', v')"
      and lk: "length k' = newsize" and lv': "length v' = newsize"
      and all: "\<forall>x\<in>set k'. x = NULL \<or> is_str x"
      and cnt: "length (filter (\<lambda>x. x \<noteq> NULL) k') = nelem m"
      using ne by auto
    let ?m = "m\<lparr>key := Some k', val := v', size_m := newsize, nused := nelem m\<rparr>"
    have res: "maybe_rehash m = Some ?m"
      using Some False run by (simp add: maybe_rehash_def Let_def newsize_def)
    have "table_ok ?m"
      using lk lv' cnt filter_str_nonnull [OF all] small e'
      by (auto simp: table_ok_def capacity_def used_slots_def live_slots_def)
    with res small show ?thesis
      by simp
  qed
qed

lemma put_loop_result_aux:
  assumes n: "n = 2 ^ e"
  shows "i < n \<Longrightarrow> ks ! ((i + d) mod n) = NULL \<Longrightarrow>
     \<exists>j<n. (ks ! j = NULL \<or> ks ! j = TOMBSTONE \<or> ks ! j = Str k) \<and>
       put_loop m ks k v (n - 1) i =
         Some (if ks ! j = NULL \<or> ks ! j = TOMBSTONE
               then m\<lparr>key := Some (ks[j := Str k]), val := (val m)[j := v],
                      nelem := nelem m + 1,
                      nused := (if ks ! j = NULL then nused m + 1 else nused m)\<rparr>
               else m\<lparr>val := (val m)[j := v]\<rparr>)"
proof (induction d arbitrary: i)
  case 0
  then show ?case
    by (intro exI [of _ i]) (subst put_loop.simps, simp)
next
  case (Suc d)
  show ?case
  proof (cases "ks ! i = NULL \<or> ks ! i = TOMBSTONE \<or> ks ! i = Str k")
    case True
    with Suc.prems(1) show ?thesis
      by (intro exI [of _ i]) (subst put_loop.simps, auto)
  next
    case False
    let ?i = "(i + 1) mod n"
    have lt: "?i < n"
      using Suc.prems(1) by simp
    have "(?i + d) mod n = (i + Suc d) mod n"
      by (simp add: mod_add_left_eq)
    with Suc.prems(2) have nul: "ks ! ((?i + d) mod n) = NULL"
      by simp
    have "put_loop m ks k v (n - 1) i = put_loop m ks k v (n - 1) ?i"
      using False by (subst put_loop.simps) (simp add: step_mod_Suc [OF n])
    with Suc.IH [OF lt nul] show ?thesis
      by simp
  qed
qed

lemma remove_loop_result_aux:
  assumes n: "n = 2 ^ e"
  shows "i < n \<Longrightarrow> ks ! ((i + d) mod n) = NULL \<Longrightarrow>
     remove_loop m ks k (n - 1) i = Some m \<or>
     (\<exists>j<n. ks ! j = Str k \<and>
        remove_loop m ks k (n - 1) i =
          Some (m\<lparr>key := Some (ks[j := TOMBSTONE]), val := (val m)[j := None],
                  nelem := nelem m - 1\<rparr>))"
proof (induction d arbitrary: i)
  case 0
  then show ?case
    by (subst remove_loop.simps) simp
next
  case (Suc d)
  show ?case
  proof (cases "ks ! i = NULL")
    case True
    then show ?thesis
      by (subst remove_loop.simps) simp
  next
    case nn: False
    show ?thesis
    proof (cases "ks ! i = Str k")
      case True
      have "remove_loop m ks k (n - 1) i =
          Some (m\<lparr>key := Some (ks[i := TOMBSTONE]), val := (val m)[i := None],
                  nelem := nelem m - 1\<rparr>)"
        using True by (subst remove_loop.simps) simp
      with True Suc.prems(1) show ?thesis
        by blast
    next
      case False
      let ?i = "(i + 1) mod n"
      have lt: "?i < n"
        using Suc.prems(1) by simp
      have "(?i + d) mod n = (i + Suc d) mod n"
        by (simp add: mod_add_left_eq)
      with Suc.prems(2) have nul: "ks ! ((?i + d) mod n) = NULL"
        by simp
      have "remove_loop m ks k (n - 1) i = remove_loop m ks k (n - 1) ?i"
        using False nn by (subst remove_loop.simps) (simp add: step_mod_Suc [OF n])
      with Suc.IH [OF lt nul] show ?thesis
        by simp
    qed
  qed
qed

lemma table_ok_has_NULL:
  assumes "table_ok m" "key m = Some ks"
  shows "\<exists>j<length ks. ks ! j = NULL"
proof -
  from assms obtain e where e: "4 \<le> e" "length ks = 2 ^ e"
    by (auto simp: table_ok_def)
  have "(2::nat) ^ 4 \<le> 2 ^ e"
    using e(1) by (intro power_increasing) simp_all
  then have "16 \<le> length ks"
    using e(2) by simp
  moreover from assms have "10 * length (filter (\<lambda>x. x \<noteq> NULL) ks) < 7 * length ks + 10"
    by (simp add: table_ok_def capacity_def used_slots_def)
  ultimately have "length (filter (\<lambda>x. x \<noteq> NULL) ks) < length ks"
    by simp
  then show ?thesis
    by (rule exists_NULL)
qed

lemma map_put_ok:
  assumes ok: "table_ok m"
  shows "\<exists>m'. map_put m k v = Some m' \<and> table_ok m' \<and> parent m' = parent m"
proof -
  from maybe_rehash_ok [OF ok] obtain m1 ks where
    r: "maybe_rehash m = Some m1" and ok1: "table_ok m1" and ks: "key m1 = Some ks"
    and lf: "10 * nused m1 < 7 * size_m m1" and par: "parent m1 = parent m"
    by blast
  from ok1 ks obtain e where e: "4 \<le> e" "length ks = 2 ^ e"
    by (auto simp: table_ok_def)
  from ok1 ks have sz: "size_m m1 = length ks"
    and nu: "nused m1 = length (filter (\<lambda>x. x \<noteq> NULL) ks)"
    and ne: "nelem m1 = length (filter is_str ks)" and lv: "length (val m1) = length ks"
    by (simp_all add: table_ok_def capacity_def used_slots_def live_slots_def)
  from table_ok_has_NULL [OF ok1 ks] obtain j0 where j0: "j0 < length ks" "ks ! j0 = NULL"
    by blast
  let ?i = "unat (hash k) AND (length ks - 1)"
  have st: "?i < length ks"
    by (rule start_lt [OF e(2)])
  from reach [OF st j0(1)] obtain d where "(?i + d) mod length ks = j0"
    by blast
  with j0(2) have "ks ! ((?i + d) mod length ks) = NULL"
    by simp
  from put_loop_result_aux [OF e(2) st this, of k m1 v] obtain j where
    j: "j < length ks" "ks ! j = NULL \<or> ks ! j = TOMBSTONE \<or> ks ! j = Str k"
    and res: "put_loop m1 ks k v (length ks - 1) ?i =
         Some (if ks ! j = NULL \<or> ks ! j = TOMBSTONE
               then m1\<lparr>key := Some (ks[j := Str k]), val := (val m1)[j := v],
                      nelem := nelem m1 + 1,
                      nused := (if ks ! j = NULL then nused m1 + 1 else nused m1)\<rparr>
               else m1\<lparr>val := (val m1)[j := v]\<rparr>)"
    by blast
  define m' where "m' = (if ks ! j = NULL \<or> ks ! j = TOMBSTONE
               then m1\<lparr>key := Some (ks[j := Str k]), val := (val m1)[j := v],
                      nelem := nelem m1 + 1,
                      nused := (if ks ! j = NULL then nused m1 + 1 else nused m1)\<rparr>
               else m1\<lparr>val := (val m1)[j := v]\<rparr>)"
  have put: "map_put m k v = Some m'"
    using r ks res sz by (simp add: map_put_def m'_def)
  have c1: "length (filter (\<lambda>x. x \<noteq> NULL) (ks[j := Str k])) + (if ks ! j \<noteq> NULL then 1 else 0)
      = length (filter (\<lambda>x. x \<noteq> NULL) ks) + 1"
    using filter_update_count [OF j(1), of "\<lambda>x. x \<noteq> NULL" "Str k"] by simp
  have c2: "length (filter is_str (ks[j := Str k])) + (if is_str (ks ! j) then 1 else 0)
      = length (filter is_str ks) + 1"
    using filter_update_count [OF j(1), of is_str "Str k"] by simp
  have "table_ok m'"
  proof (cases "ks ! j = NULL")
    case True
    with c1 c2 ok1 ks e lf sz nu ne lv show ?thesis
      by (auto simp: m'_def table_ok_def capacity_def used_slots_def live_slots_def)
  next
    case nn: False
    show ?thesis
    proof (cases "ks ! j = TOMBSTONE")
      case True
      with c1 c2 ok1 ks e lf sz nu ne lv show ?thesis
        by (auto simp: m'_def table_ok_def capacity_def used_slots_def live_slots_def)
    next
      case False
      with nn ok1 ks lv show ?thesis
        by (auto simp: m'_def table_ok_def capacity_def used_slots_def live_slots_def)
    qed
  qed
  moreover have "parent m' = parent m"
    using par by (simp add: m'_def)
  ultimately show ?thesis
    using put by blast
qed

lemma map_remove_ok:
  assumes ok: "table_ok m"
  shows "\<exists>m'. map_remove m k = Some m' \<and> table_ok m' \<and> parent m' = parent m \<and>
     (\<not> bound m k \<longrightarrow> m' = m)"
proof (cases "key m")
  case None
  then show ?thesis
    using ok by (simp add: map_remove_def)
next
  case (Some ks)
  from ok Some obtain e where e: "4 \<le> e" "length ks = 2 ^ e"
    by (auto simp: table_ok_def)
  from ok Some have sz: "size_m m = length ks"
    and nu: "nused m = length (filter (\<lambda>x. x \<noteq> NULL) ks)"
    and ne: "nelem m = length (filter is_str ks)" and lv: "length (val m) = length ks"
    and lf: "10 * nused m < 7 * size_m m + 10"
    by (simp_all add: table_ok_def capacity_def used_slots_def live_slots_def)
  from table_ok_has_NULL [OF ok Some] obtain j0 where j0: "j0 < length ks" "ks ! j0 = NULL"
    by blast
  let ?i = "unat (hash k) AND (length ks - 1)"
  have st: "?i < length ks"
    by (rule start_lt [OF e(2)])
  from reach [OF st j0(1)] obtain d where "(?i + d) mod length ks = j0"
    by blast
  with j0(2) have nul: "ks ! ((?i + d) mod length ks) = NULL"
    by simp
  have rm: "map_remove m k = remove_loop m ks k (length ks - 1) ?i"
    using Some sz by (simp add: map_remove_def Let_def)
  from remove_loop_result_aux [OF e(2) st nul, of m k]
  show ?thesis
  proof
    assume "remove_loop m ks k (length ks - 1) ?i = Some m"
    with rm ok show ?thesis
      by simp
  next
    assume "\<exists>j<length ks. ks ! j = Str k \<and>
        remove_loop m ks k (length ks - 1) ?i =
          Some (m\<lparr>key := Some (ks[j := TOMBSTONE]), val := (val m)[j := None],
                  nelem := nelem m - 1\<rparr>)"
    then obtain j where j: "j < length ks" "ks ! j = Str k"
      and res: "remove_loop m ks k (length ks - 1) ?i =
          Some (m\<lparr>key := Some (ks[j := TOMBSTONE]), val := (val m)[j := None],
                  nelem := nelem m - 1\<rparr>)"
      by blast
    let ?m = "m\<lparr>key := Some (ks[j := TOMBSTONE]), val := (val m)[j := None],
                  nelem := nelem m - 1\<rparr>"
    have c1: "length (filter (\<lambda>x. x \<noteq> NULL) (ks[j := TOMBSTONE]))
        = length (filter (\<lambda>x. x \<noteq> NULL) ks)"
      using filter_update_count [OF j(1), of "\<lambda>x. x \<noteq> NULL" TOMBSTONE] j(2) by simp
    have c2: "length (filter is_str (ks[j := TOMBSTONE])) + 1 = length (filter is_str ks)"
      using filter_update_count [OF j(1), of is_str TOMBSTONE] j(2) by simp
    have "table_ok ?m"
      using c1 c2 ok Some e lf sz nu ne lv
      by (auto simp: table_ok_def capacity_def used_slots_def live_slots_def)
    moreover have "bound m k"
      using nth_mem [OF j(1)] j(2) Some by (simp add: bound_def)
    ultimately show ?thesis
      using rm res by simp
  qed
qed

lemma apply_ops_ok:
  "table_ok m \<Longrightarrow> \<exists>m'. apply_ops ops m = Some m' \<and> table_ok m' \<and> parent m' = parent m"
proof (induction ops arbitrary: m)
  case Nil
  then show ?case by simp
next
  case (Cons x ops)
  show ?case
  proof (cases x)
    case (Put k v)
    from map_put_ok [OF Cons.prems, of k v] obtain m1 where
      "map_put m k v = Some m1" "table_ok m1" "parent m1 = parent m"
      by blast
    with Cons.IH [of m1] Put show ?thesis
      by auto
  next
    case (Remove k)
    from map_remove_ok [OF Cons.prems, of k] obtain m1 where
      "map_remove m k = Some m1" "table_ok m1" "parent m1 = parent m"
      by blast
    with Cons.IH [of m1] Remove show ?thesis
      by auto
  qed
qed

lemma reachable_ok:
  assumes "m0 = do_make_map p INIT_SIZE \<or> m0 = EMPTY_MAP"
  shows "\<exists>m. apply_ops ops m0 = Some m \<and> table_ok m"
proof -
  from assms have "table_ok m0"
    using table_ok_make table_ok_empty by auto
  from apply_ops_ok [OF this] show ?thesis
    by blast
qed

lemma table_ok_load:
  assumes "table_ok m"
  shows "\<exists>m'. 10 * used_slots m < 7 * capacity m + 10 \<and> maybe_rehash m = Some m' \<and>
     10 * used_slots m' < 7 * capacity m'"
proof -
  from maybe_rehash_ok [OF assms] obtain m' where
    "maybe_rehash m = Some m'" "table_ok m'" "10 * nused m' < 7 * size_m m'"
    by blast
  with assms show ?thesis
    by (auto simp: table_ok_def)
qed

section \<open>The load factor\<close>

text \<open>
  C2, as stated (the number of occupied and tombstone slots divided by the capacity never
  exceeds 0.7), fails: twelve insertions of distinct keys into a new table use 12 of 16
  slots. The twelfth \<open>map_put\<close> checks 11 used slots against 11.2 and then takes one more.
\<close>

theorem load_factor_exceeds_threshold:
  "\<exists>m. apply_ops twelve_ops make_map = Some m \<and> used_slots m = 12 \<and> capacity m = 16 \<and>
     \<not> 10 * used_slots m \<le> 7 * capacity m"
proof -
  have "\<exists>m. apply_ops twelve_ops make_map = Some m \<and> nused m = 12 \<and> size_m m = 16"
    by (simp add: twelve_ops_def map_eval)
  then obtain m :: "nat Map" where m: "apply_ops twelve_ops make_map = Some m" "nused m = 12" "size_m m = 16"
    by blast
  from reachable_ok [of make_map None twelve_ops] m(1) have "table_ok m"
    by (simp add: make_map_def)
  with m show ?thesis
    by (simp add: table_ok_def)
qed

text \<open>
  C2, amended: from a new table (with or without storage), every sequence of \<open>map_put\<close>
  and \<open>map_remove\<close> calls returns, and leaves the number of occupied and tombstone slots
  below 0.7 times the capacity plus one slot; the rehash check of the next insertion
  returns and brings the number below 0.7 times the capacity before the insertion takes
  its slot. The numbers are compared after multiplication by 10.
\<close>

theorem load_factor_bound:
  "(\<exists>m m'. apply_ops ops (do_make_map p INIT_SIZE) = Some m \<and>
      10 * used_slots m < 7 * capacity m + 10 \<and>
      maybe_rehash m = Some m' \<and> 10 * used_slots m' < 7 * capacity m') \<and>
   (\<exists>m m'. apply_ops ops EMPTY_MAP = Some m \<and>
      10 * used_slots m < 7 * capacity m + 10 \<and>
      maybe_rehash m = Some m' \<and> 10 * used_slots m' < 7 * capacity m')"
proof
  from apply_ops_ok [OF table_ok_make, of ops p] obtain m where
    m: "apply_ops ops (do_make_map p INIT_SIZE) = Some m" "table_ok m"
    by blast
  from table_ok_load [OF m(2)] m(1)
  show "\<exists>m m'. apply_ops ops (do_make_map p INIT_SIZE) = Some m \<and>
      10 * used_slots m < 7 * capacity m + 10 \<and>
      maybe_rehash m = Some m' \<and> 10 * used_slots m' < 7 * capacity m'"
    by blast
next
  from apply_ops_ok [OF table_ok_empty, of ops] obtain m where
    m: "apply_ops ops EMPTY_MAP = Some m" "table_ok m"
    by blast
  from table_ok_load [OF m(2)] m(1)
  show "\<exists>m m'. apply_ops ops EMPTY_MAP = Some m \<and>
      10 * used_slots m < 7 * capacity m + 10 \<and>
      maybe_rehash m = Some m' \<and> 10 * used_slots m' < 7 * capacity m'"
    by blast
qed

theorem load_factor_bound_witness:
  "\<exists>m m'. apply_ops twelve_ops make_map = Some m \<and>
      10 * used_slots m < 7 * capacity m + 10 \<and>
      maybe_rehash m = Some m' \<and> 10 * used_slots m' < 7 * capacity m'"
  using load_factor_bound [of twelve_ops None] by (simp add: make_map_def)

section \<open>Removing a key that is not bound\<close>

text \<open>
  C10 (\<open>map_remove\<close> of a key that is not bound in the table leaves the table unchanged,
  also when the table has no storage yet). For every table reached from a new one by
  \<open>map_put\<close> and \<open>map_remove\<close> calls and every key that no slot of it holds,
  \<open>map_remove\<close> returns, with the table as it was: the same arrays, counts and size.
\<close>

theorem remove_unbound_unchanged:
  assumes "m0 = do_make_map p INIT_SIZE \<or> m0 = EMPTY_MAP"
    and "apply_ops ops m0 = Some m"
    and "\<not> bound m k"
  shows "map_remove m k = Some m"
proof -
  from reachable_ok [OF assms(1), of ops] assms(2) have "table_ok m"
    by simp
  from map_remove_ok [OF this, of k] assms(3) show ?thesis
    by auto
qed

theorem remove_unbound_unchanged_witness:
  "\<exists>m. apply_ops [Put ''a'' (Some (1::nat))] make_map = Some m \<and> \<not> bound m ''q'' \<and>
     unat (hash ''q'') AND 15 = unat (hash ''a'') AND 15 \<and> map_remove m ''q'' = Some m"
proof -
  let ?m = "\<lparr>parent = None, key = Some ((replicate 16 NULL)[12 := Str ''a'']),
             val = (replicate 16 None)[12 := Some (1::nat)], size_m = 16, nelem = 1, nused = 1\<rparr>"
  have run: "apply_ops [Put ''a'' (Some 1)] make_map = Some ?m"
    by (simp add: map_eval)
  have nb: "\<not> bound ?m ''q''"
    using set_update_subset_insert [of "replicate 16 NULL" 12 "Str ''a''"]
    by (auto simp: bound_def)
  have h: "unat (hash ''q'') AND 15 = unat (hash ''a'') AND 15"
    by (simp add: hash_def char_val_def)
  have "make_map = do_make_map None INIT_SIZE \<or> make_map = (EMPTY_MAP :: nat Map)"
    by (simp add: make_map_def)
  from remove_unbound_unchanged [OF this run nb] run nb h show ?thesis
    by blast
qed

lemma same_frame_refl [simp]: "same_frame st st"
  by (simp add: same_frame_def)



lemma same_frame_regs [simp]: "same_frame st (st\<lparr>reg2var := r\<rparr>)"
  by (simp add: same_frame_def)

lemma same_frame_heap [simp]: "same_frame st (st\<lparr>heap := h\<rparr>)"
  by (simp add: same_frame_def)











lemma slack_emit [simp]: "slack (emit ins st) = slack st" "out (emit ins st) = out st"
  by (simp_all add: slack_def emit_def)

lemma slack_lvars [simp]: "slack (st\<lparr>lvars := t\<rparr>) = slack st"
  by (simp add: slack_def)




section \<open>The size of the frame\<close>







lemma remdups_snoc: "remdups (s @ [v]) = removeAll v (remdups s) @ [v]"
  by (induction s) auto

lemma mru_Nil: "mru [] = []"
  by (simp add: mru_def)

lemma mru_snoc: "mru (s @ [v]) = v # remove1 v (mru s)"
proof -
  have "mru (s @ [v]) = v # rev (removeAll v (remdups s))"
    by (simp add: mru_def remdups_snoc)
  also have "rev (removeAll v (remdups s)) = removeAll v (rev (remdups s))"
    by (simp add: removeAll_filter_not_eq rev_filter)
  also have "\<dots> = remove1 v (rev (remdups s))"
    by (simp add: distinct_remove1_removeAll)
  finally show ?thesis
    by (simp add: mru_def)
qed

lemma distinct_mru [simp]: "distinct (mru s)"
  by (simp add: mru_def)

lemma set_mru [simp]: "set (mru s) = set s"
  by (simp add: mru_def)

lemma take_remove1_miss: "v \<notin> set (take k ys) \<Longrightarrow> take k (remove1 v ys) = take k ys"
proof (induction ys arbitrary: k)
  case Nil
  then show ?case by simp
next
  case (Cons y ys)
  then show ?case
    by (cases k) auto
qed

lemma take_remove1_hit:
  "v \<in> set (take n ys) \<Longrightarrow> take (n - 1) (remove1 v ys) = remove1 v (take n ys)"
proof (induction ys arbitrary: n)
  case Nil
  then show ?case by simp
next
  case (Cons y ys)
  show ?case
  proof (cases n)
    case 0
    with Cons.prems show ?thesis by simp
  next
    case (Suc m)
    show ?thesis
    proof (cases "y = v")
      case True
      with Suc show ?thesis by simp
    next
      case False
      with Cons.prems Suc have in_m: "v \<in> set (take m ys)"
        by simp
      then have "m \<noteq> 0"
        by (cases m) simp_all
      then obtain m' where m': "m = Suc m'"
        by (cases m) simp_all
      from Cons.IH [OF in_m] have "take m' (remove1 v ys) = remove1 v (take m ys)"
        using m' by simp
      with False Suc m' show ?thesis
        by simp
    qed
  qed
qed

lemma take_mru_snoc:
  assumes "0 < n"
  shows "take n (mru (s @ [v])) =
     (if v \<in> set (take n (mru s)) then v # remove1 v (take n (mru s))
      else if length (take n (mru s)) < n then v # take n (mru s)
      else v # butlast (take n (mru s)))"
proof -
  from assms obtain m where n: "n = Suc m"
    by (cases n) simp_all
  have step: "take n (mru (s @ [v])) = v # take m (remove1 v (mru s))"
    by (simp add: mru_snoc n)
  show ?thesis
  proof (cases "v \<in> set (take n (mru s))")
    case True
    from take_remove1_hit [OF True] have "take m (remove1 v (mru s)) = remove1 v (take n (mru s))"
      by (simp add: n)
    with step have "take n (mru (s @ [v])) = v # remove1 v (take n (mru s))"
      by simp
    then show ?thesis
      by (simp only: True if_True)
  next
    case False
    then have "v \<notin> set (take m (mru s))"
      using set_take_subset_set_take [of m n "mru s"] n by auto
    from take_remove1_miss [OF this] have eq: "take m (remove1 v (mru s)) = take m (mru s)" .
    show ?thesis
    proof (cases "length (take n (mru s)) < n")
      case True
      then have "length (mru s) \<le> m"
        using n by simp
      then have "take m (mru s) = take n (mru s)"
        using n by simp
      with step eq have "take n (mru (s @ [v])) = v # take n (mru s)"
        by simp
      then show ?thesis
        by (simp only: False True if_False if_True)
    next
      case nl: False
      then have "n \<le> length (mru s)"
        by simp
      then have "butlast (take n (mru s)) = take m (mru s)"
        using n by (simp add: butlast_take)
      with step eq have "take n (mru (s @ [v])) = v # butlast (take n (mru s))"
        by simp
      then show ?thesis
        by (simp only: False nl if_False)
    qed
  qed
qed

lemma resolve_all_append:
  "resolve_all (s @ t) st =
     (case resolve_all s st of Inl e \<Rightarrow> Inl e | Inr st1 \<Rightarrow> resolve_all t st1)"
  by (induction s arbitrary: st) (auto split: sum.splits)

lemma objs_kept_refl [simp]: "objs_kept st st"
  by (simp add: objs_kept_def)

lemma objs_kept_trans: "objs_kept a b \<Longrightarrow> objs_kept b c \<Longrightarrow> objs_kept a c"
  unfolding objs_kept_def by blast

lemma objs_kept_regs [simp]: "objs_kept st (st\<lparr>reg2var := r\<rparr>)"
  by (simp add: objs_kept_def deref_def)

lemma objs_kept_spilled:
  assumes "deref st x = Some (VAR i p f b)" "heap st' = (heap st)[x := VAR i p f True]"
  shows "objs_kept st st'"
  unfolding objs_kept_def
proof (intro allI impI)
  fix y j q g c assume y: "deref st y = Some (VAR j q g c)"
  show "\<exists>b'. deref st' y = Some (VAR j q g b')"
  proof (cases "y = x")
    case True
    with y assms show ?thesis
      by (auto simp: deref_def split: if_splits)
  next
    case False
    with y assms(2) show ?thesis
      by (auto simp: deref_def split: if_splits)
  qed
qed

lemma regname_step:
  assumes inv: "slots_are (reg2var st) xs"
    and dv: "\<exists>i p f b. deref st v = Some (VAR i p f b)"
    and dx: "\<forall>x\<in>set xs. \<exists>i p f b. deref st x = Some (VAR i p f b)"
  shows "\<exists>reg st'. regname v st = Inr (reg, st') \<and>
     slots_are (reg2var st')
       (if v \<in> set xs then v # remove1 v xs
        else if length xs < NUMREGS then v # xs else v # butlast xs) \<and>
     objs_kept st st' \<and>
     (v \<in> set xs \<or> length xs < NUMREGS \<longrightarrow> out st' = out st \<and> heap st' = heap st)"
proof (cases "v \<in> set xs")
  case True
  from regname_hit [OF inv True] obtain reg r' where
    "regname v st = Inr (reg, st\<lparr>reg2var := r'\<rparr>)" "slots_are r' (v # remove1 v xs)"
    by blast
  with True show ?thesis
    by (intro exI [of _ reg] exI [of _ "st\<lparr>reg2var := r'\<rparr>"]) simp
next
  case False
  show ?thesis
  proof (cases "length xs < NUMREGS")
    case True
    from regname_fill [OF inv False True] obtain reg r' where
      "regname v st = Inr (reg, st\<lparr>reg2var := r'\<rparr>)" "slots_are r' (v # xs)"
      by blast
    with False True show ?thesis
      by (intro exI [of _ reg] exI [of _ "st\<lparr>reg2var := r'\<rparr>"]) simp
  next
    case nl: False
    from inv have "length xs \<le> NUMREGS"
      by (simp add: slots_are_def)
    with nl have full: "length xs = NUMREGS"
      by simp
    then have "xs \<noteq> []"
      by (auto simp: NUMREGS_def)
    then have "last xs \<in> set xs"
      by simp
    with dx obtain li lp lo ls where dl: "deref st (last xs) = Some (VAR li lp lo ls)"
      by blast
    from dv obtain vi vp vo vs where dv': "deref st v = Some (VAR vi vp vo vs)"
      by blast
    from regname_spill_slots [OF inv full False dl dv'] obtain reg st' where
      r: "regname v st = Inr (reg, st')"
      and h: "heap st' = (heap st)[last xs := VAR li lp lo True]"
      and s: "slots_are (reg2var st') (v # butlast xs)"
      by blast
    have "objs_kept st st'"
      by (rule objs_kept_spilled [OF dl h])
    with r s False nl show ?thesis
      by (intro exI [of _ reg] exI [of _ st']) simp
  qed
qed

lemma objs_keptD:
  "objs_kept st st' \<Longrightarrow> \<exists>i p f b. deref st x = Some (VAR i p f b) \<Longrightarrow>
   \<exists>i p f b. deref st' x = Some (VAR i p f b)"
  unfolding objs_kept_def by blast

lemma resolve_all_lru:
  assumes init: "slots_are (reg2var st) []"
  shows "\<forall>x\<in>set s. \<exists>i p f b. deref st x = Some (VAR i p f b) \<Longrightarrow>
     \<exists>st'. resolve_all s st = Inr st' \<and> slots_are (reg2var st') (take NUMREGS (mru s)) \<and>
       objs_kept st st' \<and> (length (mru s) \<le> NUMREGS \<longrightarrow> out st' = out st \<and> heap st' = heap st)"
proof (induction s rule: rev_induct)
  case Nil
  with init show ?case
    by (simp add: mru_Nil)
next
  case (snoc v s)
  from snoc.prems have objs: "\<forall>x\<in>set s. \<exists>i p f b. deref st x = Some (VAR i p f b)"
    and dv: "\<exists>i p f b. deref st v = Some (VAR i p f b)"
    by simp_all
  from snoc.IH [OF objs] obtain st1 where
    run: "resolve_all s st = Inr st1" and inv: "slots_are (reg2var st1) (take NUMREGS (mru s))"
    and kept: "objs_kept st st1"
    and quiet: "length (mru s) \<le> NUMREGS \<longrightarrow> out st1 = out st \<and> heap st1 = heap st"
    by blast
  let ?xs = "take NUMREGS (mru s)"
  have dv1: "\<exists>i p f b. deref st1 v = Some (VAR i p f b)"
    by (rule objs_keptD [OF kept dv])
  have dx1: "\<forall>x\<in>set ?xs. \<exists>i p f b. deref st1 x = Some (VAR i p f b)"
  proof
    fix x assume "x \<in> set ?xs"
    then have "x \<in> set s"
      using set_mru [of s] by (auto dest: in_set_takeD)
    with objs have "\<exists>i p f b. deref st x = Some (VAR i p f b)"
      by blast
    then show "\<exists>i p f b. deref st1 x = Some (VAR i p f b)"
      by (rule objs_keptD [OF kept])
  qed
  from regname_step [OF inv dv1 dx1] obtain reg st2 where
    r: "regname v st1 = Inr (reg, st2)"
    and inv2: "slots_are (reg2var st2)
       (if v \<in> set ?xs then v # remove1 v ?xs
        else if length ?xs < NUMREGS then v # ?xs else v # butlast ?xs)"
    and kept2: "objs_kept st1 st2"
    and quiet2: "v \<in> set ?xs \<or> length ?xs < NUMREGS \<longrightarrow> out st2 = out st1 \<and> heap st2 = heap st1"
    by blast
  have pos: "0 < NUMREGS"
    by (simp add: NUMREGS_def)
  have run2: "resolve_all (s @ [v]) st = Inr st2"
    using run r by (simp add: resolve_all_append)
  have inv2': "slots_are (reg2var st2) (take NUMREGS (mru (s @ [v])))"
    using inv2 by (simp only: take_mru_snoc [OF pos])
  have "out st2 = out st \<and> heap st2 = heap st" if le: "length (mru (s @ [v])) \<le> NUMREGS"
  proof -
    have len: "length (mru (s @ [v])) = Suc (length (remove1 v (mru s)))"
      by (simp add: mru_snoc)
    have le_s: "length (mru s) \<le> NUMREGS"
    proof (cases "v \<in> set (mru s)")
      case True
      then show ?thesis
        using le len by (simp add: length_remove1)
    next
      case False
      then show ?thesis
        using le len by (simp add: remove1_idem)
    qed
    then have tk: "?xs = mru s"
      by simp
    have "v \<in> set ?xs \<or> length ?xs < NUMREGS"
    proof (cases "v \<in> set (mru s)")
      case True
      then show ?thesis
        using tk by simp
    next
      case False
      then show ?thesis
        using le len tk by (simp add: remove1_idem)
    qed
    with quiet2 quiet le_s show ?thesis
      by auto
  qed
  with run2 inv2' objs_kept_trans [OF kept kept2] show ?case
    by blast
qed

text \<open>
  The scenario of the seven values: after \<open>v1\<close> \<open>\<dots>\<close> \<open>v6\<close>, followed by any values among
  \<open>v2\<close> \<open>\<dots>\<close> \<open>v6\<close>, the least recently resolved of the six values is \<open>v1\<close>.
\<close>

lemma mru_scenario:
  assumes d: "distinct [v1, v2, v3, v4, v5, v6]" and t: "set t \<subseteq> {v2, v3, v4, v5, v6}"
  shows "length (mru ([v1, v2, v3, v4, v5, v6] @ t)) = 6 \<and>
     mru ([v1, v2, v3, v4, v5, v6] @ t) ! 5 = v1"
proof -
  let ?r = "[v2, v3, v4, v5, v6] @ t"
  have notin: "v1 \<notin> set ?r"
    using d t by auto
  have set_r: "set ?r = {v2, v3, v4, v5, v6}"
    using t by auto
  have "length (mru ?r) = card (set (mru ?r))"
    by (rule distinct_card [OF distinct_mru, symmetric])
  also have "\<dots> = card {v2, v3, v4, v5, v6}"
    by (simp only: set_mru set_r)
  also have "\<dots> = 5"
    using d by simp
  finally have len: "length (mru ?r) = 5" .
  have "mru (v1 # ?r) = mru ?r @ [v1]"
    using notin by (simp add: mru_def)
  then have eq: "mru ([v1, v2, v3, v4, v5, v6] @ t) = mru ?r @ [v1]"
    by simp
  have "(mru ?r @ [v1]) ! length (mru ?r) = v1"
    by (rule nth_append_length)
  then have "(mru ?r @ [v1]) ! 5 = v1"
    by (simp only: len)
  with eq len show ?thesis
    by simp
qed

section \<open>The register allocator: the order of eviction\<close>

text \<open>
  C6 (with six slots, resolving seven distinct values \<open>v1\<close> \<open>\<dots>\<close> \<open>v7\<close> in this order
  evicts \<open>v1\<close> exactly when \<open>v7\<close> is resolved; a value among \<open>v2\<close> \<open>\<dots>\<close> \<open>v6\<close> that is
  resolved again before \<open>v7\<close> is not the victim: the least recently used binding is always
  the one evicted). \<open>mru s\<close> lists the distinct values of a sequence \<open>s\<close> of resolves,
  the most recently resolved first (\<open>mru_Nil\<close>, \<open>mru_snoc\<close>). From the empty slots and
  for every sequence \<open>s\<close>, of any length and with any repetitions: the slots hold the
  first six values of \<open>mru s\<close>, in this order, followed by the empty slots; while at most
  six distinct values have been resolved, nothing is written and no object changes. When
  six or more distinct values have been resolved and \<open>v\<close> is in no slot, resolving \<open>v\<close>
  evicts the value of the last slot, which is the sixth of \<open>mru s\<close>, the least recently
  resolved of the six: its spill is written, to its own offset, it is marked spilled, and
  the slots then hold \<open>v\<close> followed by the five values resolved more recently. For
  \<open>s\<close> = \<open>v1\<close> \<open>\<dots>\<close> \<open>v6\<close> the victim is \<open>v1\<close>, also when some of \<open>v2\<close> \<open>\<dots>\<close> \<open>v6\<close>
  follow once more (\<open>mru_scenario\<close>); when \<open>v1\<close> follows once more, it is \<open>v2\<close>.
\<close>

theorem lru_eviction:
  assumes init: "reg2var st = replicate NUMREGS \<lparr>v_r = None, reg_r = []\<rparr>"
    and objs: "\<forall>x\<in>set (v # s). \<exists>i p f b. deref st x = Some (VAR i p f b)"
  shows "\<exists>st1. resolve_all s st = Inr st1 \<and>
     map v_r (reg2var st1) =
       map Some (take NUMREGS (mru s)) @ replicate (NUMREGS - length (mru s)) None \<and>
     (length (mru s) \<le> NUMREGS \<longrightarrow> out st1 = out st \<and> heap st1 = heap st) \<and>
     (NUMREGS \<le> length (mru s) \<and> v \<notin> set (take NUMREGS (mru s)) \<longrightarrow>
        (\<exists>reg st2 i p f b vi vp vf vb.
           regname v st1 = Inr (reg, st2) \<and>
           deref st (mru s ! (NUMREGS - 1)) = Some (VAR i p f b) \<and>
           deref st1 v = Some (VAR vi vp vf vb) \<and>
           out st2 = out st1
             @ [''    movq %'' @ reg @ '', '' @ show_int f @ ''(%rbp)  # spill'']
             @ (if vb then [''    movq '' @ show_int vf @ ''(%rbp), %'' @ reg @ ''  # load'']
                else []) \<and>
           heap st2 = (heap st1)[mru s ! (NUMREGS - 1) := VAR i p f True] \<and>
           map v_r (reg2var st2) = map Some (v # take (NUMREGS - 1) (mru s))))"
proof -
  have inv0: "slots_are (reg2var st) []"
    by (simp add: slots_are_def init)
  from objs have objs_s: "\<forall>x\<in>set s. \<exists>i p f b. deref st x = Some (VAR i p f b)"
    and dv: "\<exists>i p f b. deref st v = Some (VAR i p f b)"
    by simp_all
  from resolve_all_lru [OF inv0 objs_s] obtain st1 where
    run: "resolve_all s st = Inr st1" and inv: "slots_are (reg2var st1) (take NUMREGS (mru s))"
    and kept: "objs_kept st st1"
    and quiet: "length (mru s) \<le> NUMREGS \<longrightarrow> out st1 = out st \<and> heap st1 = heap st"
    by blast
  let ?xs = "take NUMREGS (mru s)"
  have slots: "map v_r (reg2var st1) =
       map Some ?xs @ replicate (NUMREGS - length (mru s)) None"
    using inv by (simp add: slots_are_def min_def)
  have evict: "\<exists>reg st2 i p f b vi vp vf vb.
           regname v st1 = Inr (reg, st2) \<and>
           deref st (mru s ! (NUMREGS - 1)) = Some (VAR i p f b) \<and>
           deref st1 v = Some (VAR vi vp vf vb) \<and>
           out st2 = out st1
             @ [''    movq %'' @ reg @ '', '' @ show_int f @ ''(%rbp)  # spill'']
             @ (if vb then [''    movq '' @ show_int vf @ ''(%rbp), %'' @ reg @ ''  # load'']
                else []) \<and>
           heap st2 = (heap st1)[mru s ! (NUMREGS - 1) := VAR i p f True] \<and>
           map v_r (reg2var st2) = map Some (v # take (NUMREGS - 1) (mru s))"
    if full': "NUMREGS \<le> length (mru s)" and miss: "v \<notin> set ?xs"
  proof -
    have full: "length ?xs = NUMREGS"
      using full' by simp
    have ne: "?xs \<noteq> []"
      using full by (auto simp: NUMREGS_def)
    have last: "last ?xs = mru s ! (NUMREGS - 1)"
      using full ne by (simp add: last_conv_nth)
    have bl: "butlast ?xs = take (NUMREGS - 1) (mru s)"
      using full' by (simp add: butlast_take)
    have "last ?xs \<in> set s"
      using last_in_set [OF ne] set_mru [of s] by (auto dest: in_set_takeD)
    with objs_s obtain i p f b where d0: "deref st (last ?xs) = Some (VAR i p f b)"
      by blast
    with kept obtain b' where dl: "deref st1 (last ?xs) = Some (VAR i p f b')"
      unfolding objs_kept_def by blast
    from objs_keptD [OF kept dv] obtain vi vp vf vb where dv1: "deref st1 v = Some (VAR vi vp vf vb)"
      by blast
    from regname_spill_slots [OF inv full miss dl dv1] obtain reg st2 where
      r: "regname v st1 = Inr (reg, st2)"
      and o: "out st2 = out st1
          @ [''    movq %'' @ reg @ '', '' @ show_int f @ ''(%rbp)  # spill'']
          @ (if vb then [''    movq '' @ show_int vf @ ''(%rbp), %'' @ reg @ ''  # load''] else [])"
      and h: "heap st2 = (heap st1)[last ?xs := VAR i p f True]"
      and s2: "slots_are (reg2var st2) (v # butlast ?xs)"
      by blast
    have len2: "length (v # butlast ?xs) = NUMREGS"
      using full ne by (simp add: NUMREGS_def)
    have "map v_r (reg2var st2) = map Some (v # butlast ?xs)"
      using s2 len2 by (simp add: slots_are_def)
    with r d0 dv1 o h show ?thesis
      unfolding last bl by blast
  qed
  from run slots quiet evict show ?thesis
    by blast
qed

theorem lru_eviction_witness:
  "\<exists>st1 reg st2.
     resolve_all [0, 1, 2, 3, 4, 5, 0] (seven_vars (None, 0, False)) = Inr st1 \<and>
     out st1 = [] \<and>
     map v_r (reg2var st1) = map Some [0, 5, 4, 3, 2, 1] \<and>
     regname 6 st1 = Inr (reg, st2) \<and>
     out st2 = [''    movq %'' @ reg @ '', -16(%rbp)  # spill''] \<and>
     map v_r (reg2var st2) = map Some [6, 0, 5, 4, 3, 2]"
proof -
  let ?st = "seven_vars (None, 0, False)"
  let ?s = "[0, 1, 2, 3, 4, 5, 0::nat]"
  have a: "reg2var ?st = replicate NUMREGS \<lparr>v_r = None, reg_r = []\<rparr>"
    by (simp add: seven_vars_eq)
  have b: "\<forall>x\<in>set (6 # ?s). \<exists>i p f b. deref ?st x = Some (VAR i p f b)"
    by (auto simp: seven_vars_eq deref_def)
  have m: "mru ?s = [0, 5, 4, 3, 2, 1]"
    by (simp add: mru_def)
  have o: "out ?st = []"
    by (simp add: seven_vars_eq)
  have d1: "deref ?st 1 = Some (VAR 2 None (- 16) False)"
    by (simp add: seven_vars_eq deref_def)
  have d6: "deref ?st 6 = Some (VAR 7 None (- 56) False)"
    by (simp add: seven_vars_eq deref_def)
  have sh: "show_int (- 16) = ''-16''"
    by (simp add: show_int_def show_nat.simps)
  from lru_eviction [OF a b] obtain st1 where
    r1: "resolve_all ?s ?st = Inr st1"
    and r2: "map v_r (reg2var st1) =
       map Some (take NUMREGS (mru ?s)) @ replicate (NUMREGS - length (mru ?s)) None"
    and r3: "length (mru ?s) \<le> NUMREGS \<longrightarrow> out st1 = out ?st \<and> heap st1 = heap ?st"
    and r4: "NUMREGS \<le> length (mru ?s) \<and> 6 \<notin> set (take NUMREGS (mru ?s)) \<longrightarrow>
        (\<exists>reg st2 i p f b vi vp vf vb.
           regname 6 st1 = Inr (reg, st2) \<and>
           deref ?st (mru ?s ! (NUMREGS - 1)) = Some (VAR i p f b) \<and>
           deref st1 6 = Some (VAR vi vp vf vb) \<and>
           out st2 = out st1
             @ [''    movq %'' @ reg @ '', '' @ show_int f @ ''(%rbp)  # spill'']
             @ (if vb then [''    movq '' @ show_int vf @ ''(%rbp), %'' @ reg @ ''  # load'']
                else []) \<and>
           heap st2 = (heap st1)[mru ?s ! (NUMREGS - 1) := VAR i p f True] \<and>
           map v_r (reg2var st2) = map Some (6 # take (NUMREGS - 1) (mru ?s)))"
    by blast
  from r3 [unfolded m] have q: "out st1 = []" "heap st1 = heap ?st"
    by (simp_all add: NUMREGS_def o)
  from r2 [unfolded m] have s1: "map v_r (reg2var st1) = map Some [0, 5, 4, 3, 2, 1]"
    by (simp add: NUMREGS_def)
  from r4 [unfolded m] obtain reg st2 i p f b vi vp vf vb where
    e1: "regname 6 st1 = Inr (reg, st2)"
    and e2: "deref ?st 1 = Some (VAR i p f b)"
    and e3: "deref st1 6 = Some (VAR vi vp vf vb)"
    and e4: "out st2 = out st1
             @ [''    movq %'' @ reg @ '', '' @ show_int f @ ''(%rbp)  # spill'']
             @ (if vb then [''    movq '' @ show_int vf @ ''(%rbp), %'' @ reg @ ''  # load'']
                else [])"
    and e5: "map v_r (reg2var st2) = map Some [6, 0, 5, 4, 3, 2]"
    by (auto simp: NUMREGS_def)
  from e2 d1 have f: "f = - 16"
    by simp
  from e3 d6 q(2) have vb: "vb = False"
    by (simp add: deref_heap [OF q(2)])
  have "out st2 = [''    movq %'' @ reg @ '', -16(%rbp)  # spill'']"
    using e4 by (simp add: q(1) f vb sh)
  with r1 q(1) s1 e1 e5 show ?thesis
    by blast
qed

end
